theory Spec2Isabelle
  imports Complex_Main "HOL-Library.Sublist"
begin

section \<open>Strings as the dialogue code uses them\<close>

text \<open>
  The slot-filling dialogue of \<^verbatim>\<open>src/components/RequestFlow.tsx\<close> works on JavaScript
  strings. They are modelled as \<^typ>\<open>string\<close>, read as ASCII text: every keyword, regular
  expression class and question of the component is ASCII. \<^verbatim>\<open>toLowerCase\<close> maps
  \<^verbatim>\<open>A-Z\<close> to \<^verbatim>\<open>a-z\<close> and leaves every other character alone.
  An optional field (\<^verbatim>\<open>taskType?: string\<close>) is a \<^typ>\<open>string option\<close>, with
  \<^term>\<open>None\<close> for \<^verbatim>\<open>undefined\<close> and \<^verbatim>\<open>null\<close>.
\<close>

definition lower_char :: "char \<Rightarrow> char" where
  "lower_char c =
     (case map_of (zip ''ABCDEFGHIJKLMNOPQRSTUVWXYZ'' ''abcdefghijklmnopqrstuvwxyz'') c of
        Some l \<Rightarrow> l
      | None \<Rightarrow> c)"

definition toLowerCase :: "string \<Rightarrow> string" where
  "toLowerCase s = map lower_char s"

text \<open>\<^verbatim>\<open>s.includes(k)\<close>: \<open>k\<close> occurs in \<open>s\<close> as a contiguous block.\<close>

fun str_includes :: "string \<Rightarrow> string \<Rightarrow> bool" where
  "str_includes [] k = (k = [])"
| "str_includes (c # cs) k = (prefix k (c # cs) \<or> str_includes cs k)"

text \<open>
  Truthiness of an optional string, as \<^verbatim>\<open>if (x)\<close> and \<^verbatim>\<open>!x\<close> test it:
  \<^verbatim>\<open>undefined\<close>, \<^verbatim>\<open>null\<close> and the empty string are falsy.
\<close>

definition truthy :: "string option \<Rightarrow> bool" where
  "truthy v = (case v of None \<Rightarrow> False | Some s \<Rightarrow> s \<noteq> [])"

text \<open>\<^verbatim>\<open>a || b\<close> on optional strings.\<close>

definition or_else :: "string option \<Rightarrow> string option \<Rightarrow> string option" where
  "or_else a b = (if truthy a then a else b)"

definition isSpace :: "char \<Rightarrow> bool" where
  "isSpace c = (c \<in> set [CHR '' '', CHR 0x09, CHR 0x0A, CHR 0x0B, CHR 0x0C, CHR 0x0D])"

definition trim :: "string \<Rightarrow> string" where
  "trim s = rev (dropWhile isSpace (rev (dropWhile isSpace s)))"

section \<open>Regular expressions with backtracking\<close>

text \<open>
  The fragment of JavaScript regular expressions that \<^verbatim>\<open>extractBudget\<close> and
  \<^verbatim>\<open>extractLocation\<close> use: single characters and the classes \<^verbatim>\<open>[A-Z]\<close>,
  \<^verbatim>\<open>[a-z]\<close>, \<^verbatim>\<open>\d\<close>, the greedy quantifiers \<^verbatim>\<open>*\<close> and \<^verbatim>\<open>+\<close> on a
  class, the greedy option \<^verbatim>\<open>?\<close> and sequencing. \<open>rmatch r s\<close> lists what is left of
  \<open>s\<close> after each way of matching \<open>r\<close> at its start, in the order in which a backtracking
  matcher tries them; the head is the match JavaScript reports.
\<close>

datatype cls = Lit char | Upper | Lower | Digit

fun inCls :: "cls \<Rightarrow> char \<Rightarrow> bool" where
  "inCls (Lit c) x = (x = c)"
| "inCls Upper x = (x \<in> set ''ABCDEFGHIJKLMNOPQRSTUVWXYZ'')"
| "inCls Lower x = (x \<in> set ''abcdefghijklmnopqrstuvwxyz'')"
| "inCls Digit x = (x \<in> set ''0123456789'')"

datatype rx = Eps | One cls | Star cls | Plus cls | Opt rx | Then rx rx

fun greedy :: "cls \<Rightarrow> string \<Rightarrow> string list" where
  "greedy c [] = [[]]"
| "greedy c (x # xs) = (if inCls c x then greedy c xs @ [x # xs] else [x # xs])"

fun rmatch :: "rx \<Rightarrow> string \<Rightarrow> string list" where
  "rmatch Eps s = [s]"
| "rmatch (One c) s = (case s of [] \<Rightarrow> [] | x # xs \<Rightarrow> if inCls c x then [xs] else [])"
| "rmatch (Star c) s = greedy c s"
| "rmatch (Plus c) s = (case s of [] \<Rightarrow> [] | x # xs \<Rightarrow> if inCls c x then greedy c xs else [])"
| "rmatch (Opt r) s = rmatch r s @ [s]"
| "rmatch (Then a b) s = concat (map (rmatch b) (rmatch a s))"

definition seq :: "rx list \<Rightarrow> rx" where
  "seq rs = foldr Then rs Eps"

definition lits :: "string \<Rightarrow> rx" where
  "lits s = seq (map (\<lambda>c. One (Lit c)) s)"

text \<open>
  \<^verbatim>\<open>text.match(pattern)\<close>: the text matched at the leftmost position where the pattern
  matches, \<^term>\<open>None\<close> for \<^verbatim>\<open>null\<close>. With the \<^verbatim>\<open>g\<close> flag the result is the array
  of all matches, whose element 0 is this same leftmost match.
\<close>

fun regexSearch :: "rx \<Rightarrow> string \<Rightarrow> string option" where
  "regexSearch r [] = (case rmatch r [] of [] \<Rightarrow> None | rest # _ \<Rightarrow> Some [])"
| "regexSearch r (c # cs) =
     (case rmatch r (c # cs) of
        rest # _ \<Rightarrow> Some (take (length (c # cs) - length rest) (c # cs))
      | [] \<Rightarrow> regexSearch r cs)"

section \<open>Data model\<close>

record ScopingData =
  taskType :: "string option"
  location :: "string option"
  budget :: "string option"
  timeline :: "string option"
  details :: "string option"
  additionalInfo :: "(string \<rightharpoonup> string) option"

definition emptyData :: ScopingData where
  "emptyData = \<lparr>taskType = None, location = None, budget = None, timeline = None,
                 details = None, additionalInfo = None\<rparr>"

text \<open>\<^verbatim>\<open>data.additionalInfo?.specific\<close>\<close>

definition specificOf :: "ScopingData \<Rightarrow> string option" where
  "specificOf d = (case additionalInfo d of None \<Rightarrow> None | Some m \<Rightarrow> m ''specific'')"

datatype msgType = UserMsg | AiMsg | SystemMsg

record Message =
  mtype :: msgType
  content :: string
  msuggestions :: "string list option"
  mdata :: "ScopingData option"

record ParsedRequest =
  pr_taskType :: "string option"
  pr_skills :: "string list option"
  pr_location :: "string option"
  pr_duration :: "string option"
  pr_suggestedPrice :: "real option"
  pr_description :: "string option"

section \<open>Field extractors\<close>

definition extractTaskType :: "string \<Rightarrow> string" where
  "extractTaskType text =
     (let lowerText = toLowerCase text in
      if str_includes lowerText ''trash'' \<or> str_includes lowerText ''garbage'' then ''Trash Removal''
      else if str_includes lowerText ''photo'' \<or> str_includes lowerText ''photographer'' then ''Photography''
      else if str_includes lowerText ''clean'' \<or> str_includes lowerText ''cleaning'' then ''Cleaning''
      else if str_includes lowerText ''wifi'' \<or> str_includes lowerText ''internet''
              \<or> str_includes lowerText ''tech'' then ''Tech Support''
      else if str_includes lowerText ''design'' \<or> str_includes lowerText ''logo''
              \<or> str_includes lowerText ''graphic'' then ''Graphic Design''
      else if str_includes lowerText ''move'' \<or> str_includes lowerText ''moving'' then ''Moving Services''
      else if str_includes lowerText ''repair'' \<or> str_includes lowerText ''fix'' then ''Repair Services''
      else ''General Service'')"

text \<open>
  The three patterns of \<^verbatim>\<open>extractLocation\<close>; the capture group of the first two is
  everything after the three characters \<^verbatim>\<open>in \<close> or \<^verbatim>\<open>at \<close>.
\<close>

definition placeTail :: "rx list" where
  "placeTail = [One Upper, Plus Lower, Opt (One (Lit CHR '' '')), Star Upper, Star Lower]"

definition stateTail :: "rx list" where
  "stateTail = [Opt (One (Lit CHR '','')), Opt (One (Lit CHR '' '')), One Upper, One Upper]"

definition locationPattern1 :: rx where
  "locationPattern1 = Then (lits ''in '') (seq (placeTail @ stateTail))"

definition locationPattern2 :: rx where
  "locationPattern2 = Then (lits ''at '') (seq placeTail)"

definition locationPattern3 :: rx where
  "locationPattern3 = seq (placeTail @ stateTail)"

definition extractLocation :: "string \<Rightarrow> string option" where
  "extractLocation text =
     (case regexSearch locationPattern1 text of
        Some m \<Rightarrow> Some (drop 3 m)
      | None \<Rightarrow>
          (case regexSearch locationPattern2 text of
             Some m \<Rightarrow> Some (drop 3 m)
           | None \<Rightarrow> regexSearch locationPattern3 text))"

text \<open>\<^verbatim>\<open>/\$(\d+)(?:-\$?(\d+))?/g\<close>\<close>

definition budgetPattern :: rx where
  "budgetPattern =
     seq [One (Lit CHR ''$''), Plus Digit,
          Opt (seq [One (Lit CHR ''-''), Opt (One (Lit CHR ''$'')), Plus Digit])]"

definition extractBudget :: "string \<Rightarrow> string option" where
  "extractBudget text = regexSearch budgetPattern text"

definition extractTimeline :: "string \<Rightarrow> string option" where
  "extractTimeline text =
     (let lowerText = toLowerCase text in
      if str_includes lowerText ''today'' \<or> str_includes lowerText ''asap'' then Some ''Today''
      else if str_includes lowerText ''tomorrow'' then Some ''Tomorrow''
      else if str_includes lowerText ''this week'' then Some ''This week''
      else if str_includes lowerText ''next week'' then Some ''Next week''
      else if str_includes lowerText ''weekend'' then Some ''This weekend''
      else None)"

section \<open>Missing-field policy and question generator\<close>

definition taskQuestions :: "(string \<times> string) list" where
  "taskQuestions =
     [(''Trash Removal'', ''What type of items need removal?''),
      (''Photography'', ''What type of photography session?''),
      (''Cleaning'', ''What type of cleaning do you need?''),
      (''Tech Support'', ''What specific tech help do you need?''),
      (''Moving Services'', ''What size move is this?''),
      (''Graphic Design'', ''What type of design work?'')]"

text \<open>
  \<^verbatim>\<open>questions[taskType || ''] || null\<close>. The object literal is read as the table of its
  own six keys; \<^verbatim>\<open>extractTaskType\<close> is the only producer of task types and never
  returns the name of an inherited property.
\<close>

definition getTaskSpecificQuestion :: "string option \<Rightarrow> string option" where
  "getTaskSpecificQuestion tt =
     or_else (map_of taskQuestions (case tt of None \<Rightarrow> [] | Some t \<Rightarrow> t)) None"

definition taskSuggestions :: "(string \<times> string list) list" where
  "taskSuggestions =
     [(''Trash Removal'', [''Household trash'', ''Old furniture'', ''Yard waste'', ''Construction debris'']),
      (''Photography'', [''Portrait session'', ''Event photography'', ''Product photos'', ''Headshots'']),
      (''Cleaning'', [''Deep cleaning'', ''Regular maintenance'', ''Move-out cleaning'', ''Post-party cleanup'']),
      (''Tech Support'', [''WiFi setup'', ''Computer repair'', ''Smart home setup'', ''Software help'']),
      (''Moving Services'', [''Studio apartment'', ''2-bedroom house'', ''Just a few items'', ''Full house'']),
      (''Graphic Design'', [''Logo design'', ''Business cards'', ''Website graphics'', ''Social media posts''])]"

definition getTaskSpecificSuggestions :: "string option \<Rightarrow> string list" where
  "getTaskSpecificSuggestions tt =
     (case map_of taskSuggestions (case tt of None \<Rightarrow> [] | Some t \<Rightarrow> t) of
        None \<Rightarrow> []
      | Some xs \<Rightarrow> xs)"

text \<open>The second argument, \<^verbatim>\<open>originalText\<close>, is never read by the body.\<close>

definition getMissingInfo :: "ScopingData \<Rightarrow> string \<Rightarrow> string list" where
  "getMissingInfo data originalText =
     (let m1 = (if \<not> truthy (location data) then [''location''] else []);
          m2 = (if \<not> truthy (budget data) then m1 @ [''budget''] else m1);
          m3 = (if \<not> truthy (timeline data) then m2 @ [''timeline''] else m2)
      in if truthy (taskType data) \<and> \<not> truthy (specificOf data)
         then (let needsSpecific = getTaskSpecificQuestion (taskType data)
               in if truthy needsSpecific then m3 @ [''specific''] else m3)
         else m3)"

definition getNextQuestion :: "string \<Rightarrow> string option \<Rightarrow> string" where
  "getNextQuestion questionType tt =
     (case map_of
        [(''location'', ''Where are you located?''),
         (''budget'', ''What's your budget for this?''),
         (''timeline'', ''When do you need this done?''),
         (''specific'', (case getTaskSpecificQuestion tt of None \<Rightarrow> [] | Some q \<Rightarrow> q))]
        questionType of
        None \<Rightarrow> []
      | Some q \<Rightarrow> q)"

definition getQuestionSuggestions :: "string \<Rightarrow> string option \<Rightarrow> string list" where
  "getQuestionSuggestions questionType tt =
     (case map_of
        [(''location'', [''Brooklyn, NY'', ''Downtown Seattle'', ''Austin, TX'', ''My home address'']),
         (''budget'', [''$50-100'', ''Around $75'', ''Under $200'', ''Flexible budget'']),
         (''timeline'', [''Today'', ''This weekend'', ''Next week'', ''Flexible timing'']),
         (''specific'', getTaskSpecificSuggestions tt)]
        questionType of
        None \<Rightarrow> []
      | Some xs \<Rightarrow> xs)"

text \<open>\<^verbatim>\<open>parts.join('\n')\<close>\<close>

fun joinLines :: "string list \<Rightarrow> string" where
  "joinLines [] = []"
| "joinLines [p] = p"
| "joinLines (p # q # ps) = p @ [CHR 0x0A] @ joinLines (q # ps)"

text \<open>The pictographs that open each line of the summary are given as their UTF-8 bytes.\<close>

definition generateSummary :: "ScopingData \<Rightarrow> string" where
  "generateSummary data =
     joinLines
       ((case taskType data of Some v \<Rightarrow>
           if v \<noteq> [] then [[CHR 0xF0, CHR 0x9F, CHR 0x94, CHR 0xA7] @ '' Service: '' @ v] else []
         | None \<Rightarrow> []) @
        (case location data of Some v \<Rightarrow>
           if v \<noteq> [] then [[CHR 0xF0, CHR 0x9F, CHR 0x93, CHR 0x8D] @ '' Location: '' @ v] else []
         | None \<Rightarrow> []) @
        (case budget data of Some v \<Rightarrow>
           if v \<noteq> [] then [[CHR 0xF0, CHR 0x9F, CHR 0x92, CHR 0xB0] @ '' Budget: '' @ v] else []
         | None \<Rightarrow> []) @
        (case timeline data of Some v \<Rightarrow>
           if v \<noteq> [] then [[CHR 0xE2, CHR 0x8F, CHR 0xB0] @ '' Timeline: '' @ v] else []
         | None \<Rightarrow> []) @
        (case specificOf data of Some v \<Rightarrow>
           if v \<noteq> [] then [[CHR 0xF0, CHR 0x9F, CHR 0x93, CHR 0x9D] @ '' Details: '' @ v] else []
         | None \<Rightarrow> []))"

section \<open>Dialogue controller\<close>

record Response =
  r_message :: string
  r_updatedData :: ScopingData
  r_suggestions :: "string list"
  r_data :: "ScopingData option"
  r_isComplete :: bool

text \<open>\<^verbatim>\<open>${updatedData.taskType?.toLowerCase()}\<close> inside a template literal\<close>

definition lowerTaskType :: "string option \<Rightarrow> string" where
  "lowerTaskType tt = (case tt of None \<Rightarrow> ''undefined'' | Some t \<Rightarrow> toLowerCase t)"

text \<open>
  The branch of \<^verbatim>\<open>processUserInput\<close> taken while \<^verbatim>\<open>messages.length <= 1\<close>:
  first the slots read off the first utterance, then the reply.
\<close>

definition extractInitial :: "string \<Rightarrow> ScopingData \<Rightarrow> ScopingData" where
  "extractInitial userInput currentData =
     (let d0 = currentData\<lparr>taskType := Some (extractTaskType userInput), details := Some userInput\<rparr>;
          extractedLocation = extractLocation userInput;
          extractedBudget = extractBudget userInput;
          extractedTimeline = extractTimeline userInput;
          d1 = (if truthy extractedLocation then d0\<lparr>location := extractedLocation\<rparr> else d0);
          d2 = (if truthy extractedBudget then d1\<lparr>budget := extractedBudget\<rparr> else d1)
      in if truthy extractedTimeline then d2\<lparr>timeline := extractedTimeline\<rparr> else d2)"

definition firstMessage :: "string \<Rightarrow> ScopingData \<Rightarrow> Response" where
  "firstMessage userInput currentData =
     (let updatedData = extractInitial userInput currentData;
          missingInfo = getMissingInfo updatedData userInput
      in case missingInfo of
           q # _ \<Rightarrow>
             \<lparr>r_message = ''Perfect! I understand you need '' @ lowerTaskType (taskType updatedData)
                            @ ''. '' @ getNextQuestion q (taskType updatedData),
              r_updatedData = updatedData,
              r_suggestions = getQuestionSuggestions q (taskType updatedData),
              r_data = None,
              r_isComplete = False\<rparr>
         | [] \<Rightarrow>
             \<lparr>r_message = ''Excellent! I have everything I need. Let me find the best ''
                            @ lowerTaskType (taskType updatedData) @ '' providers in your area...'',
              r_updatedData = updatedData,
              r_suggestions = [],
              r_data = None,
              r_isComplete = True\<rparr>)"

text \<open>The rest of \<^verbatim>\<open>processUserInput\<close>: a reply to the question that was asked.\<close>

definition storeAnswer :: "string option \<Rightarrow> string \<Rightarrow> ScopingData \<Rightarrow> ScopingData" where
  "storeAnswer currentQuestion userInput updatedData =
     (if currentQuestion = Some ''location'' then updatedData\<lparr>location := Some userInput\<rparr>
      else if currentQuestion = Some ''budget''
        then updatedData\<lparr>budget := or_else (extractBudget userInput) (Some userInput)\<rparr>
      else if currentQuestion = Some ''timeline'' then updatedData\<lparr>timeline := Some userInput\<rparr>
      else if currentQuestion = Some ''specific''
        then updatedData\<lparr>additionalInfo :=
               Some ((case additionalInfo updatedData of None \<Rightarrow> Map.empty | Some m \<Rightarrow> m)
                       (''specific'' \<mapsto> userInput))\<rparr>
      else updatedData)"

definition laterMessage :: "string \<Rightarrow> ScopingData \<Rightarrow> Response" where
  "laterMessage userInput currentData =
     (let missingBefore =
            getMissingInfo currentData (case details currentData of None \<Rightarrow> [] | Some t \<Rightarrow> t);
          currentQuestion = (case missingBefore of [] \<Rightarrow> None | q # _ \<Rightarrow> Some q);
          updatedData = storeAnswer currentQuestion userInput currentData;
          missingInfo =
            getMissingInfo updatedData (case details updatedData of None \<Rightarrow> [] | Some t \<Rightarrow> t)
      in case missingInfo of
           q # _ \<Rightarrow>
             \<lparr>r_message = ''Got it! '' @ getNextQuestion q (taskType updatedData),
              r_updatedData = updatedData,
              r_suggestions = getQuestionSuggestions q (taskType updatedData),
              r_data = None,
              r_isComplete = False\<rparr>
         | [] \<Rightarrow>
             \<lparr>r_message = ''Perfect! Here's what I understand:'' @ [CHR 0x0A, CHR 0x0A]
                            @ generateSummary updatedData @ [CHR 0x0A, CHR 0x0A]
                            @ ''Let me find you the best providers...'',
              r_updatedData = updatedData,
              r_suggestions = [],
              r_data = Some updatedData,
              r_isComplete = True\<rparr>)"

text \<open>
  \<^verbatim>\<open>processUserInput\<close> reads \<^verbatim>\<open>messages\<close> from the component state; here it is
  the first argument.
\<close>

definition processUserInput :: "Message list \<Rightarrow> string \<Rightarrow> ScopingData \<Rightarrow> Response" where
  "processUserInput msgs userInput currentData =
     (if length msgs \<le> 1 then firstMessage userInput currentData
      else laterMessage userInput currentData)"

section \<open>Submitting a turn\<close>

text \<open>
  The two collaborators are outside the component: what
  \<^verbatim>\<open>blink.ai.generateObject\<close> and \<^verbatim>\<open>blink.db.requests.create\<close> do on a call is
  an input of the model. A call either throws (a rejected promise) or returns. The object
  that \<^verbatim>\<open>generateObject\<close> returns is untyped for the component, so each of its
  properties may be absent.
\<close>

datatype 'a outcome = Throws | Returns 'a

record GenObject =
  o_taskType :: "string option"
  o_skills :: "string list option"
  o_location :: "string option"
  o_duration :: "string option"
  o_suggestedPrice :: "real option"
  o_description :: "string option"

text \<open>
  The argument of \<^verbatim>\<open>blink.db.requests.create\<close>; \<open>parsedSkills\<close> holds the array
  whose JSON text the code stores.
\<close>

record RequestRecord =
  rq_id :: string
  rq_userId :: string
  rq_inputText :: "string option"
  parsedTaskType :: "string option"
  parsedSkills :: "string list option"
  parsedLocation :: "string option"
  parsedDuration :: "string option"
  suggestedPrice :: "real option"
  finalPrice :: "real option"
  status :: string

record Env =
  generated :: "GenObject outcome"
  created :: "string outcome"
  now :: string
  userId :: string

text \<open>
  The component state. \<open>generateCalls\<close> and \<open>createCalls\<close> are not React state: they log
  the calls made to the two collaborators, with the data passed.
\<close>

record FlowState =
  inputText :: string
  messages :: "Message list"
  isProcessing :: bool
  scopingData :: ScopingData
  isComplete :: bool
  parsedRequest :: "ParsedRequest option"
  requestId :: "string option"
  showWelcome :: bool
  generateCalls :: "ScopingData list"
  createCalls :: "RequestRecord list"

definition quickStarters :: "string list" where
  "quickStarters =
     [''I need help with trash removal'', ''Looking for a photographer'',
      ''Need apartment cleaning'', ''WiFi setup help'', ''Moving assistance'',
      ''Graphic design work'']"

definition welcomeMessage :: Message where
  "welcomeMessage =
     \<lparr>mtype = AiMsg,
      content = ''Hi! I'm your AI assistant. Tell me what you need help with, and I'll find you the perfect local provider. What can I help you with today?'',
      msuggestions = Some quickStarters,
      mdata = None\<rparr>"

text \<open>
  The state once the welcome message has been shown. The message is set by a timer half a
  second after the component mounts and replaces whatever the list holds; a reply is
  appended no sooner than 1.2 seconds after its turn was submitted, so the welcome message
  is in the list before the first reply is.
\<close>

definition initState :: FlowState where
  "initState =
     \<lparr>inputText = [], messages = [welcomeMessage], isProcessing = False,
      scopingData = emptyData, isComplete = False, parsedRequest = None, requestId = None,
      showWelcome = True, generateCalls = [], createCalls = []\<rparr>"

definition thinkingMessage :: Message where
  "thinkingMessage = \<lparr>mtype = SystemMsg, content = ''thinking'', msuggestions = None, mdata = None\<rparr>"

definition errorMessage :: Message where
  "errorMessage =
     \<lparr>mtype = AiMsg,
      content = ''I'm sorry, I encountered an error. Could you please try again?'',
      msuggestions = None, mdata = None\<rparr>"

text \<open>\<^verbatim>\<open>prev.filter(m => m.content !== 'thinking')\<close>\<close>

definition dropThinking :: "Message list \<Rightarrow> Message list" where
  "dropThinking ms = filter (\<lambda>m. content m \<noteq> ''thinking'') ms"

definition generateFinalRequest :: "GenObject outcome \<Rightarrow> ScopingData \<Rightarrow> ParsedRequest outcome" where
  "generateFinalRequest gen data =
     (case gen of
        Throws \<Rightarrow> Throws
      | Returns object \<Rightarrow>
          Returns \<lparr>pr_taskType = or_else (taskType data) (o_taskType object),
                   pr_skills = o_skills object,
                   pr_location = or_else (location data) (o_location object),
                   pr_duration = o_duration object,
                   pr_suggestedPrice = o_suggestedPrice object,
                   pr_description = o_description object\<rparr>)"

text \<open>The \<^verbatim>\<open>catch\<close> block followed by the \<^verbatim>\<open>finally\<close> block.\<close>

definition caught :: "FlowState \<Rightarrow> FlowState" where
  "caught st = st\<lparr>messages := dropThinking (messages st) @ [errorMessage], isProcessing := False\<rparr>"

text \<open>\<^verbatim>\<open>const messageText = text || inputText\<close>\<close>

definition messageTextOf :: "string option \<Rightarrow> string \<Rightarrow> string" where
  "messageTextOf text typed = (case or_else text (Some typed) of None \<Rightarrow> [] | Some t \<Rightarrow> t)"

text \<open>
  \<^verbatim>\<open>handleSubmit\<close> up to the point where the reply has been shown and the scoping data
  stored: the user's message and the thinking indicator are appended, the reply is computed
  from the messages and scoping data of the render that created the handler, the indicator
  is filtered out and the reply appended.
\<close>

definition showReply :: "string \<Rightarrow> Response \<Rightarrow> FlowState \<Rightarrow> FlowState" where
  "showReply messageText aiResponse st =
     (let userMessage = \<lparr>mtype = UserMsg, content = messageText, msuggestions = None, mdata = None\<rparr>;
          aiMessage = \<lparr>mtype = AiMsg, content = r_message aiResponse,
                       msuggestions = Some (r_suggestions aiResponse), mdata = r_data aiResponse\<rparr>
      in st\<lparr>showWelcome := False,
             messages := dropThinking (messages st @ [userMessage] @ [thinkingMessage]) @ [aiMessage],
             isProcessing := True,
             inputText := [],
             scopingData := r_updatedData aiResponse\<rparr>)"

text \<open>The \<^verbatim>\<open>if (aiResponse.isComplete)\<close> block, with its way out through \<^verbatim>\<open>catch\<close>.\<close>

definition finalize :: "Env \<Rightarrow> string \<Rightarrow> ScopingData \<Rightarrow> FlowState \<Rightarrow> FlowState" where
  "finalize env messageText updatedData st =
     (let st5 = st\<lparr>isComplete := True, generateCalls := generateCalls st @ [updatedData]\<rparr>
      in case generateFinalRequest (generated env) updatedData of
           Throws \<Rightarrow> caught st5
         | Returns finalRequest \<Rightarrow>
             (let newRecord =
                    \<lparr>rq_id = ''req_'' @ now env,
                     rq_userId = userId env,
                     rq_inputText = or_else (details updatedData) (Some messageText),
                     parsedTaskType = pr_taskType finalRequest,
                     parsedSkills = pr_skills finalRequest,
                     parsedLocation = pr_location finalRequest,
                     parsedDuration = pr_duration finalRequest,
                     suggestedPrice = pr_suggestedPrice finalRequest,
                     finalPrice = pr_suggestedPrice finalRequest,
                     status = ''processing''\<rparr>;
                  st6 = st5\<lparr>parsedRequest := Some finalRequest,
                             createCalls := createCalls st5 @ [newRecord]\<rparr>
              in case created env of
                   Throws \<Rightarrow> caught st6
                 | Returns newId \<Rightarrow> st6\<lparr>requestId := Some newId, isProcessing := False\<rparr>))"

definition handleSubmit :: "Env \<Rightarrow> string option \<Rightarrow> FlowState \<Rightarrow> FlowState" where
  "handleSubmit env text st =
     (let messageText = messageTextOf text (inputText st) in
      if trim messageText = [] then st
      else
        (let aiResponse = processUserInput (messages st) messageText (scopingData st);
             st4 = showReply messageText aiResponse st
         in if r_isComplete aiResponse
            then finalize env messageText (r_updatedData aiResponse) st4
            else st4\<lparr>isProcessing := False\<rparr>))"

text \<open>
  A turn is either text typed into the input box and sent, or a click on a suggestion
  (\<^verbatim>\<open>handleSuggestionClick\<close>), each with what the collaborators would answer.
\<close>

datatype turn = Typed Env string | Clicked Env string

fun turnText :: "turn \<Rightarrow> string" where
  "turnText (Typed env s) = s"
| "turnText (Clicked env s) = s"

fun step :: "turn \<Rightarrow> FlowState \<Rightarrow> FlowState" where
  "step (Typed env s) st = handleSubmit env None (st\<lparr>inputText := s\<rparr>)"
| "step (Clicked env s) st = handleSubmit env (Some s) st"

fun runTurns :: "turn list \<Rightarrow> FlowState \<Rightarrow> FlowState" where
  "runTurns [] st = st"
| "runTurns (t # ts) st = runTurns ts (step t st)"

section \<open>The variant of the policy in UserDashboard.tsx\<close>

text \<open>
  \<^verbatim>\<open>src/components/UserDashboard.tsx\<close> holds another copy of the dialogue. Its
  \<^verbatim>\<open>getMissingInfo\<close> reads the original text: words of the text can stand for the
  location, the budget and the timeline, and the keyword sets of
  \<^verbatim>\<open>hasTaskSpecificInfo\<close> can stand for the task-specific answer.
  \<^verbatim>\<open>RequestFlow.tsx\<close> has neither the function nor any of these tests.
\<close>

definition hasTaskSpecificInfo :: "string \<Rightarrow> string \<Rightarrow> bool" where
  "hasTaskSpecificInfo text tt =
     (let lowerText = toLowerCase text in
      if tt = ''Trash Removal''
        then str_includes lowerText ''furniture'' \<or> str_includes lowerText ''household''
             \<or> str_includes lowerText ''yard''
      else if tt = ''Photography''
        then str_includes lowerText ''wedding'' \<or> str_includes lowerText ''portrait''
             \<or> str_includes lowerText ''event''
      else if tt = ''Cleaning''
        then str_includes lowerText ''deep'' \<or> str_includes lowerText ''regular''
             \<or> str_includes lowerText ''move-out''
      else False)"

definition dashboardQuestions :: "(string \<times> string) list" where
  "dashboardQuestions =
     [(''Trash Removal'', ''What type of items need to be removed? (e.g., \"household trash\", \"furniture\", \"yard waste\")''),
      (''Photography'', ''What type of photography do you need? (e.g., \"portrait session\", \"event photography\", \"product photos\")''),
      (''Cleaning'', ''What type of cleaning service? (e.g., \"deep clean\", \"regular maintenance\", \"move-out cleaning\")''),
      (''Tech Support'', ''What specific tech issue needs help? (e.g., \"WiFi setup\", \"computer repair\", \"smart home installation\")''),
      (''Moving Services'', ''What size move is this? (e.g., \"studio apartment\", \"3-bedroom house\", \"just a few items\")'')]"

definition dashboardGetMissingInfo :: "ScopingData \<Rightarrow> string \<Rightarrow> string list" where
  "dashboardGetMissingInfo data originalText =
     (let lowerText = toLowerCase originalText;
          m1 = (if \<not> truthy (location data) \<or> location data = Some ''Not specified''
                then (if \<not> str_includes lowerText ''location'' \<and> \<not> str_includes lowerText ''address''
                         \<and> \<not> str_includes lowerText ''home'' \<and> \<not> str_includes lowerText ''apartment''
                      then [''location''] else [])
                else []);
          m2 = (if \<not> truthy (budget data)
                then (if regexSearch (seq [One (Lit CHR ''$''), Plus Digit]) originalText = None
                      then m1 @ [''budget''] else m1)
                else m1);
          m3 = (if \<not> truthy (timeline data)
                then (if \<not> str_includes lowerText ''today'' \<and> \<not> str_includes lowerText ''tomorrow''
                         \<and> \<not> str_includes lowerText ''week'' \<and> \<not> str_includes lowerText ''month''
                         \<and> \<not> str_includes lowerText ''urgent'' \<and> \<not> str_includes lowerText ''asap''
                      then m2 @ [''timeline''] else m2)
                else m2)
      in case taskType data of
           None \<Rightarrow> m3
         | Some tt \<Rightarrow>
             if tt \<noteq> [] \<and> \<not> truthy (specificOf data)
             then (let needsSpecific = or_else (map_of dashboardQuestions tt) None
                   in if truthy needsSpecific \<and> \<not> hasTaskSpecificInfo originalText tt
                      then m3 @ [''specific''] else m3)
             else m3)"

section \<open>The specification's vocabulary\<close>

text \<open>
  The required fields in their priority order, the slot each one names, and when a field is
  unmet. The task-specific field applies only to a task type with a registered follow-up
  question.
\<close>

definition requiredOrder :: "string list" where
  "requiredOrder = [''location'', ''budget'', ''timeline'', ''specific'']"

definition slot :: "string \<Rightarrow> ScopingData \<Rightarrow> string option" where
  "slot f d =
     (if f = ''location'' then location d
      else if f = ''budget'' then budget d
      else if f = ''timeline'' then timeline d
      else if f = ''specific'' then specificOf d
      else None)"

definition applicable :: "string \<Rightarrow> ScopingData \<Rightarrow> bool" where
  "applicable f d =
     (f \<in> set requiredOrder \<and> (f = ''specific'' \<longrightarrow> getTaskSpecificQuestion (taskType d) \<noteq> None))"

definition unmet :: "ScopingData \<Rightarrow> string \<Rightarrow> bool" where
  "unmet d f = (applicable f d \<and> \<not> truthy (slot f d))"

definition headOf :: "string list \<Rightarrow> string option" where
  "headOf xs = (case xs of [] \<Rightarrow> None | q # _ \<Rightarrow> Some q)"

text \<open>Two states of a cleaning request: every slot answered, and all but the cleaning type.\<close>

definition cleaningAsked :: ScopingData where
  "cleaningAsked =
     \<lparr>taskType = Some ''Cleaning'', location = Some ''Austin, TX'', budget = Some ''$50-100'',
      timeline = Some ''Today'', details = Some ''Need deep cleaning'', additionalInfo = None\<rparr>"

definition cleaningDone :: ScopingData where
  "cleaningDone =
     cleaningAsked\<lparr>additionalInfo := Some [''specific'' \<mapsto> ''Deep cleaning'']\<rparr>"

text \<open>
  An ordered table of keyword rules, as the specification describes the task-type and
  timeline extractors: a rule matches a lower-cased text that contains one of its keywords,
  and the first matching rule of the table gives the value.
\<close>

definition ruleMatches :: "string \<Rightarrow> string list \<times> string \<Rightarrow> bool" where
  "ruleMatches lowerText rule = (\<exists>k \<in> set (fst rule). str_includes lowerText k)"

definition firstRule :: "(string list \<times> string) list \<Rightarrow> string \<Rightarrow> string option" where
  "firstRule rules lowerText = map_option snd (find (ruleMatches lowerText) rules)"

definition taskTypeRules :: "(string list \<times> string) list" where
  "taskTypeRules =
     [([''trash'', ''garbage''], ''Trash Removal''),
      ([''photo'', ''photographer''], ''Photography''),
      ([''clean''], ''Cleaning''),
      ([''wifi'', ''internet'', ''tech''], ''Tech Support''),
      ([''design'', ''logo'', ''graphic''], ''Graphic Design''),
      ([''move'', ''moving''], ''Moving Services''),
      ([''repair'', ''fix''], ''Repair Services'')]"

definition timelineRules :: "(string list \<times> string) list" where
  "timelineRules =
     [([''today'', ''asap''], ''Today''),
      ([''tomorrow''], ''Tomorrow''),
      ([''this week''], ''This week''),
      ([''next week''], ''Next week''),
      ([''weekend''], ''This weekend'')]"

text \<open>
  Vocabulary for runs of the dialogue: the text a turn submits, the reply computed for it,
  the value a reply to question \<open>f\<close> stores, and the states that lie after the first
  accepted turn (more than one message, one of them not a thinking indicator).
\<close>

definition submitted :: "turn \<Rightarrow> FlowState \<Rightarrow> string" where
  "submitted t st = (case t of Typed env s \<Rightarrow> s | Clicked env s \<Rightarrow> if s \<noteq> [] then s else inputText st)"

fun turnEnv :: "turn \<Rightarrow> Env" where
  "turnEnv (Typed env s) = env"
| "turnEnv (Clicked env s) = env"

definition reply :: "turn \<Rightarrow> FlowState \<Rightarrow> Response" where
  "reply t st = processUserInput (messages st) (submitted t st) (scopingData st)"

definition anchored :: "FlowState \<Rightarrow> bool" where
  "anchored st = (\<exists>m \<in> set (messages st). content m \<noteq> ''thinking'')"

definition laterPhase :: "FlowState \<Rightarrow> bool" where
  "laterPhase st = (1 < length (messages st) \<and> anchored st)"

definition answerFor :: "string \<Rightarrow> string \<Rightarrow> string option" where
  "answerFor f u = (if f = ''budget'' then or_else (extractBudget u) (Some u) else Some u)"

text \<open>
  Collaborator answers and turns used in the examples: a well-formed generated object, one
  without its \<open>suggestedPrice\<close>, a call that throws, and the three replies that follow the
  first utterance of a cleaning request.
\<close>

definition okObject :: GenObject where
  "okObject =
     \<lparr>o_taskType = Some ''Cleaning'', o_skills = Some [''deep cleaning''], o_location = Some ''Austin'',
      o_duration = Some ''3 hours'', o_suggestedPrice = Some 90,
      o_description = Some ''Deep cleaning of an apartment''\<rparr>"

definition okEnv :: Env where
  "okEnv = \<lparr>generated = Returns okObject, created = Returns ''req_1700000000000'',
            now = ''1700000000000'', userId = ''user_1''\<rparr>"

definition failingEnv :: Env where
  "failingEnv = okEnv\<lparr>generated := Throws\<rparr>"

definition malformedEnv :: Env where
  "malformedEnv = okEnv\<lparr>generated := Returns (okObject\<lparr>o_suggestedPrice := None\<rparr>)\<rparr>"

definition cleaningTurns :: "turn list" where
  "cleaningTurns =
     [Typed okEnv ''Austin, TX'', Clicked okEnv ''$50-100'', Typed okEnv ''Today'']"

text \<open>
  The \<^verbatim>\<open>required\<close> list of the schema passed to \<^verbatim>\<open>generateObject\<close>: every property
  must be present.
\<close>

definition conformsToSchema :: "GenObject \<Rightarrow> bool" where
  "conformsToSchema object =
     (o_taskType object \<noteq> None \<and> o_skills object \<noteq> None \<and> o_location object \<noteq> None
      \<and> o_duration object \<noteq> None \<and> o_suggestedPrice object \<noteq> None
      \<and> o_description object \<noteq> None)"

text \<open>
  The cleaning dialogue up to the last question, and its last answer given while the
  collaborator returns the object without a price, or throws.
\<close>

definition cleaningAskedState :: FlowState where
  "cleaningAskedState = runTurns cleaningTurns (step (Clicked okEnv ''Need deep cleaning'') initState)"

definition malformedRun :: FlowState where
  "malformedRun = step (Typed malformedEnv ''Deep cleaning'') cleaningAskedState"

definition failedRun :: FlowState where
  "failedRun = step (Typed failingEnv ''Deep cleaning'') cleaningAskedState"

text \<open>
  Budget texts. \<open>budgetText\<close> is the shape of what the budget pattern of the code matches:
  a dollar sign and an integer, optionally followed by a hyphen and an integer with or
  without its own dollar sign. \<open>specBudgetPattern\<close> is the pattern as the specification
  words it, where the second integer needs its dollar sign. \<open>budgetMatchAt\<close> describes
  directly the text the code's pattern matches at the start of a string (digit runs as long
  as possible), and \<open>rangeRx\<close> names the optional group of the pattern.
\<close>

definition isInteger :: "string \<Rightarrow> bool" where
  "isInteger a = (a \<noteq> [] \<and> (\<forall>c \<in> set a. inCls Digit c))"

definition budgetText :: "string \<Rightarrow> bool" where
  "budgetText m =
     (\<exists>a. isInteger a \<and>
        (m = ''$'' @ a \<or> (\<exists>b. isInteger b \<and> (m = ''$'' @ a @ ''-'' @ b \<or> m = ''$'' @ a @ ''-$'' @ b))))"

definition specBudgetPattern :: rx where
  "specBudgetPattern =
     seq [One (Lit CHR ''$''), Plus Digit,
          Opt (seq [One (Lit CHR ''-''), One (Lit CHR ''$''), Plus Digit])]"

definition rangeText :: "string \<Rightarrow> string" where
  "rangeText t =
     (case t of
        c # y # x \<Rightarrow>
          if c = CHR ''-'' \<and> inCls Digit y then CHR ''-'' # y # takeWhile (inCls Digit) x
          else if c = CHR ''-'' \<and> y = CHR ''$'' then
            (case x of
               z # x' \<Rightarrow>
                 if inCls Digit z then CHR ''-'' # CHR ''$'' # z # takeWhile (inCls Digit) x' else []
             | [] \<Rightarrow> [])
          else []
      | _ \<Rightarrow> [])"

definition budgetMatchAt :: "string \<Rightarrow> string option" where
  "budgetMatchAt s =
     (case s of
        c # d # r \<Rightarrow>
          if c = CHR ''$'' \<and> inCls Digit d
          then Some (CHR ''$'' # d # takeWhile (inCls Digit) r @ rangeText (dropWhile (inCls Digit) r))
          else None
      | _ \<Rightarrow> None)"

definition rangeRx :: rx where
  "rangeRx = seq [One (Lit CHR ''-''), Opt (One (Lit CHR ''$'')), Plus Digit]"

section \<open>Facts about the model\<close>

subsection \<open>The missing-field policy\<close>

lemma truthy_simps [simp]: "truthy None = False" "truthy (Some s) = (s \<noteq> [])"
  by (simp_all add: truthy_def)

lemma truthy_question:
  "truthy (getTaskSpecificQuestion tt) \<longleftrightarrow> getTaskSpecificQuestion tt \<noteq> None"
  by (auto simp: getTaskSpecificQuestion_def or_else_def truthy_def split: option.splits)

lemma question_needs_taskType: "getTaskSpecificQuestion tt \<noteq> None \<Longrightarrow> truthy tt"
  by (cases tt)
     (auto simp: getTaskSpecificQuestion_def or_else_def truthy_def taskQuestions_def
           split: option.splits if_splits)

lemma getMissingInfo_filter: "getMissingInfo d t = filter (unmet d) requiredOrder"
  using question_needs_taskType[of "taskType d"]
  by (auto simp: getMissingInfo_def Let_def unmet_def applicable_def slot_def requiredOrder_def
                 truthy_question)

lemma getMissingInfo_text: "getMissingInfo d t1 = getMissingInfo d t2"
  by (simp add: getMissingInfo_def)

lemma getMissingInfo_Nil:
  "getMissingInfo d t = [] \<longleftrightarrow>
     truthy (location d) \<and> truthy (budget d) \<and> truthy (timeline d)
     \<and> (truthy (specificOf d) \<or> getTaskSpecificQuestion (taskType d) = None)"
  using question_needs_taskType[of "taskType d"]
  by (auto simp: getMissingInfo_def Let_def truthy_question)

lemma firstMessage_data [simp]: "r_updatedData (firstMessage u d) = extractInitial u d"
  by (simp add: firstMessage_def Let_def split: list.splits)

lemma firstMessage_complete:
  "r_isComplete (firstMessage u d) = (getMissingInfo (extractInitial u d) t = [])"
proof -
  have "getMissingInfo (extractInitial u d) u = getMissingInfo (extractInitial u d) t"
    by (rule getMissingInfo_text)
  then show ?thesis by (simp add: firstMessage_def Let_def split: list.splits)
qed

lemma laterMessage_data:
  "r_updatedData (laterMessage u d) = storeAnswer (headOf (getMissingInfo d t)) u d"
proof -
  have "getMissingInfo d (case details d of None \<Rightarrow> [] | Some x \<Rightarrow> x) = getMissingInfo d t"
    by (rule getMissingInfo_text)
  then show ?thesis by (simp add: laterMessage_def Let_def headOf_def split: list.splits)
qed

lemma laterMessage_complete:
  "r_isComplete (laterMessage u d) = (getMissingInfo (r_updatedData (laterMessage u d)) t = [])"
proof -
  have "getMissingInfo x (case details x of None \<Rightarrow> [] | Some y \<Rightarrow> y) = getMissingInfo x t" for x
    by (rule getMissingInfo_text)
  then show ?thesis by (simp add: laterMessage_def Let_def split: list.splits)
qed

lemma processUserInput_complete:
  "r_isComplete (processUserInput msgs u d)
     = (getMissingInfo (r_updatedData (processUserInput msgs u d)) t = [])"
  using firstMessage_complete[of u d t] laterMessage_complete[of u d t]
  by (simp add: processUserInput_def)

subsection \<open>Keyword rules\<close>

lemma str_includes_iff: "str_includes s k \<longleftrightarrow> sublist k s"
  by (induction s) (auto simp: sublist_Cons_right)

lemma str_includes_longer: "str_includes s (k @ k') \<Longrightarrow> str_includes s k"
  unfolding str_includes_iff by (metis sublist_appendI sublist_order.order.trans sublist_append_rightI)

lemma firstRule_least:
  assumes "i < length rules" "ruleMatches lt (rules ! i)" "\<forall>j<i. \<not> ruleMatches lt (rules ! j)"
  shows "firstRule rules lt = Some (snd (rules ! i))"
proof -
  have "find (ruleMatches lt) rules = Some (rules ! i)"
    using assms unfolding find_Some_iff by blast
  then show ?thesis by (simp add: firstRule_def)
qed

lemma firstRule_none:
  "(\<forall>r \<in> set rules. \<not> ruleMatches lt r) \<Longrightarrow> firstRule rules lt = None"
  by (simp add: firstRule_def find_None_iff)

lemma extractTaskType_table:
  "extractTaskType text =
     (case firstRule taskTypeRules (toLowerCase text) of Some c \<Rightarrow> c | None \<Rightarrow> ''General Service'')"
  using str_includes_longer[of "toLowerCase text" "''clean''" "''ing''"]
  by (auto simp: extractTaskType_def Let_def firstRule_def taskTypeRules_def ruleMatches_def)

lemma extractTimeline_table:
  "extractTimeline text = firstRule timelineRules (toLowerCase text)"
  by (auto simp: extractTimeline_def Let_def firstRule_def timelineRules_def ruleMatches_def)

lemma firstRule_earlier:
  assumes "i < j" "j < length rules" "ruleMatches lt (rules ! i)" "distinct (map snd rules)"
  shows "\<exists>m \<le> i. firstRule rules lt = Some (snd (rules ! m)) \<and> snd (rules ! m) \<noteq> snd (rules ! j)"
proof -
  from assms have "rules ! i \<in> set rules" by simp
  with assms(3) have "find (ruleMatches lt) rules \<noteq> None"
    unfolding find_None_iff by blast
  then obtain m where m: "m < length rules" "find (ruleMatches lt) rules = Some (rules ! m)"
      "\<forall>k<m. \<not> ruleMatches lt (rules ! k)"
    by (auto simp: find_Some_iff)
  with assms have "m \<le> i" by (meson not_le)
  moreover from m have "firstRule rules lt = Some (snd (rules ! m))" by (simp add: firstRule_def)
  moreover have "snd (rules ! m) \<noteq> snd (rules ! j)"
  proof -
    from \<open>m \<le> i\<close> assms have "m \<noteq> j" "m < length (map snd rules)" "j < length (map snd rules)" by auto
    with assms(4) have "map snd rules ! m \<noteq> map snd rules ! j"
      using nth_eq_iff_index_eq[of "map snd rules" m j] by blast
    with \<open>m < length rules\<close> assms(2) show ?thesis by simp
  qed
  ultimately show ?thesis by blast
qed

lemma taskTypeRules_distinct: "distinct (map snd taskTypeRules)"
  by (simp add: taskTypeRules_def)

lemma lower_clean: "toLowerCase ''Clean up my PHOTOS'' = ''clean up my photos''"
  by (simp add: toLowerCase_def lower_char_def)

subsection \<open>Storing an answer and asking the next question\<close>

lemma missing_head_unmet:
  assumes "getMissingInfo d t = f # rest"
  shows "f \<in> set requiredOrder" and "\<not> truthy (slot f d)"
proof -
  from assms have "f \<in> set (getMissingInfo d t)" by simp
  then have "f \<in> set (filter (unmet d) requiredOrder)"
    unfolding getMissingInfo_filter .
  then show "f \<in> set requiredOrder" and "\<not> truthy (slot f d)"
    by (simp_all add: unmet_def)
qed

lemma storeAnswer_head:
  "f \<in> set requiredOrder \<Longrightarrow> slot f (storeAnswer (Some f) u d) = answerFor f u"
  by (auto simp: requiredOrder_def storeAnswer_def slot_def answerFor_def specificOf_def)

lemma storeAnswer_others: "q \<noteq> Some g \<Longrightarrow> slot g (storeAnswer q u d) = slot g d"
  by (auto simp: storeAnswer_def slot_def specificOf_def)

lemma storeAnswer_taskType [simp]:
  "taskType (storeAnswer q u d) = taskType d" "details (storeAnswer q u d) = details d"
  by (simp_all add: storeAnswer_def)

lemma or_else_Some_nonempty: "u \<noteq> [] \<Longrightarrow> truthy (or_else a (Some u))"
  by (simp add: or_else_def)

lemma answerFor_truthy: "u \<noteq> [] \<Longrightarrow> truthy (answerFor f u)"
  by (simp add: answerFor_def or_else_Some_nonempty)

lemma trim_nonempty: "trim u \<noteq> [] \<Longrightarrow> u \<noteq> []"
  by (auto simp: trim_def)

lemma filter_tl_unmet:
  assumes "getMissingInfo d t = f # rest" "u \<noteq> []"
  shows "getMissingInfo (storeAnswer (Some f) u d) t' = rest"
proof -
  let ?d' = "storeAnswer (Some f) u d"
  from assms(1) have f: "f \<in> set requiredOrder" "\<not> truthy (slot f d)"
    by (rule missing_head_unmet)+
  have tf: "truthy (slot f ?d')"
    using f(1) assms(2) by (simp add: storeAnswer_head answerFor_truthy)
  have other: "unmet ?d' g = unmet d g" if "g \<noteq> f" for g
    using that by (simp add: unmet_def applicable_def storeAnswer_others)
  have nf: "\<not> unmet ?d' f" using tf by (simp add: unmet_def)
  have pw: "unmet ?d' g = (g \<noteq> f \<and> unmet d g)" for g
    using other[of g] nf by (cases "g = f") auto
  have "filter (unmet ?d') requiredOrder = filter (\<lambda>g. g \<noteq> f \<and> unmet d g) requiredOrder"
    by (rule filter_cong[OF refl]) (rule pw)
  also have "\<dots> = filter (\<lambda>g. g \<noteq> f) (filter (unmet d) requiredOrder)"
    by (simp add: conj_commute)
  also have "\<dots> = filter (\<lambda>g. g \<noteq> f) (f # rest)"
    using assms(1) by (simp add: getMissingInfo_filter)
  also have "\<dots> = rest"
  proof -
    have "distinct (filter (unmet d) requiredOrder)" by (simp add: requiredOrder_def)
    with assms(1) have "distinct (f # rest)" by (simp add: getMissingInfo_filter)
    then have "f \<notin> set rest" by simp
    then show ?thesis by (auto simp: filter_id_conv)
  qed
  finally show ?thesis by (simp add: getMissingInfo_filter)
qed

lemma laterMessage_pops:
  assumes "u \<noteq> []"
  shows "getMissingInfo (r_updatedData (laterMessage u d)) t' = tl (getMissingInfo d t)"
proof (cases "getMissingInfo d t")
  case Nil
  then have "r_updatedData (laterMessage u d) = d"
    by (simp add: laterMessage_data[of u d t] headOf_def storeAnswer_def)
  with Nil show ?thesis using getMissingInfo_text[of d t' t] by simp
next
  case (Cons f rest)
  then show ?thesis
    using filter_tl_unmet[OF Cons assms, of t']
    by (simp add: laterMessage_data[of u d t] headOf_def)
qed

lemma laterMessage_message:
  assumes "getMissingInfo (r_updatedData (laterMessage u d)) t = g # rest"
  shows "r_message (laterMessage u d) = ''Got it! '' @ getNextQuestion g (taskType (r_updatedData (laterMessage u d)))"
    and "r_suggestions (laterMessage u d) = getQuestionSuggestions g (taskType (r_updatedData (laterMessage u d)))"
proof -
  have *: "getMissingInfo x (case details x of None \<Rightarrow> [] | Some y \<Rightarrow> y) = getMissingInfo x t" for x
    by (rule getMissingInfo_text)
  from assms show "r_message (laterMessage u d) = ''Got it! '' @ getNextQuestion g (taskType (r_updatedData (laterMessage u d)))"
    and "r_suggestions (laterMessage u d) = getQuestionSuggestions g (taskType (r_updatedData (laterMessage u d)))"
    by (simp_all add: laterMessage_def Let_def * split: list.splits)
qed

lemma firstMessage_message:
  assumes "getMissingInfo (extractInitial u d) t = g # rest"
  shows "r_message (firstMessage u d) = ''Perfect! I understand you need '' @ lowerTaskType (taskType (extractInitial u d)) @ ''. '' @ getNextQuestion g (taskType (extractInitial u d))"
    and "r_suggestions (firstMessage u d) = getQuestionSuggestions g (taskType (extractInitial u d))"
proof -
  have *: "getMissingInfo (extractInitial u d) u = getMissingInfo (extractInitial u d) t"
    by (rule getMissingInfo_text)
  from assms show "r_message (firstMessage u d) = ''Perfect! I understand you need '' @ lowerTaskType (taskType (extractInitial u d)) @ ''. '' @ getNextQuestion g (taskType (extractInitial u d))"
    and "r_suggestions (firstMessage u d) = getQuestionSuggestions g (taskType (extractInitial u d))"
    by (simp_all add: firstMessage_def Let_def * split: list.splits)
qed

lemma question_nonempty:
  assumes "getMissingInfo d t = g # rest"
  shows "getNextQuestion g (taskType d) \<noteq> []"
proof -
  from assms have "g \<in> set (getMissingInfo d t)" by simp
  then have "g \<in> set (filter (unmet d) requiredOrder)"
    unfolding getMissingInfo_filter .
  then have g: "g \<in> set requiredOrder" "applicable g d" by (simp_all add: unmet_def)
  show ?thesis
  proof (cases "g = ''specific''")
    case True
    with g(2) have "truthy (getTaskSpecificQuestion (taskType d))"
      by (simp add: applicable_def truthy_question)
    with True show ?thesis
      by (cases "getTaskSpecificQuestion (taskType d)") (auto simp: getNextQuestion_def)
  next
    case False
    with g(1) show ?thesis by (auto simp: getNextQuestion_def requiredOrder_def)
  qed
qed

subsection \<open>One submitted turn\<close>

lemma submitted_turnText: "trim (turnText t) \<noteq> [] \<Longrightarrow> submitted t st = turnText t"
  by (cases t) (auto simp: submitted_def trim_def)

lemma showReply_fields [simp]:
  "scopingData (showReply mt r st) = r_updatedData r"
  "isComplete (showReply mt r st) = isComplete st"
  "parsedRequest (showReply mt r st) = parsedRequest st"
  "requestId (showReply mt r st) = requestId st"
  "createCalls (showReply mt r st) = createCalls st"
  "generateCalls (showReply mt r st) = generateCalls st"
  by (simp_all add: showReply_def Let_def)

lemma showReply_messages:
  "messages (showReply mt r st) =
     dropThinking (messages st) @ dropThinking [\<lparr>mtype = UserMsg, content = mt, msuggestions = None, mdata = None\<rparr>]
       @ [\<lparr>mtype = AiMsg, content = r_message r, msuggestions = Some (r_suggestions r), mdata = r_data r\<rparr>]"
  by (simp add: showReply_def Let_def dropThinking_def thinkingMessage_def)

lemma finalize_fields [simp]:
  "scopingData (finalize env mt d st) = scopingData st"
  "isComplete (finalize env mt d st) = True"
  "generateCalls (finalize env mt d st) = generateCalls st @ [d]"
  by (simp_all add: finalize_def Let_def caught_def split: outcome.splits)

lemma finalize_messages:
  "messages (finalize env mt d st) = messages st
   \<or> messages (finalize env mt d st) = dropThinking (messages st) @ [errorMessage]"
  by (simp add: finalize_def Let_def caught_def split: outcome.splits)

lemma handleSubmit_blank:
  "trim (messageTextOf text (inputText st)) = [] \<Longrightarrow> handleSubmit env text st = st"
  by (simp add: handleSubmit_def)

lemma handleSubmit_accepted:
  "trim (messageTextOf text (inputText st)) \<noteq> [] \<Longrightarrow>
   handleSubmit env text st =
     (if r_isComplete (processUserInput (messages st) (messageTextOf text (inputText st)) (scopingData st))
      then finalize env (messageTextOf text (inputText st))
             (r_updatedData (processUserInput (messages st) (messageTextOf text (inputText st)) (scopingData st)))
             (showReply (messageTextOf text (inputText st))
                (processUserInput (messages st) (messageTextOf text (inputText st)) (scopingData st)) st)
      else (showReply (messageTextOf text (inputText st))
                (processUserInput (messages st) (messageTextOf text (inputText st)) (scopingData st)) st)
             \<lparr>isProcessing := False\<rparr>)"
  by (simp add: handleSubmit_def Let_def)

lemma showReply_inputText [simp]: "showReply mt r (st\<lparr>inputText := s\<rparr>) = showReply mt r st"
  by (simp add: showReply_def)

lemma messageTextOf_simps [simp]:
  "messageTextOf None s = s" "messageTextOf (Some x) s = (if x \<noteq> [] then x else s)"
  by (simp_all add: messageTextOf_def or_else_def)

lemma step_blank:
  "trim (submitted t st) = [] \<Longrightarrow>
   step t st = (case t of Typed env s \<Rightarrow> st\<lparr>inputText := s\<rparr> | Clicked env s \<Rightarrow> st)"
  by (cases t) (simp_all add: submitted_def handleSubmit_blank)

lemma step_accepted:
  "trim (submitted t st) \<noteq> [] \<Longrightarrow>
   step t st =
     (if r_isComplete (reply t st)
      then finalize (turnEnv t) (submitted t st) (r_updatedData (reply t st))
             (showReply (submitted t st) (reply t st) st)
      else (showReply (submitted t st) (reply t st) st)\<lparr>isProcessing := False\<rparr>)"
  by (cases t) (simp_all add: submitted_def reply_def handleSubmit_accepted)

lemma step_blank_data:
  assumes "trim (submitted t st) = []"
  shows "scopingData (step t st) = scopingData st" "messages (step t st) = messages st"
    "isComplete (step t st) = isComplete st" "parsedRequest (step t st) = parsedRequest st"
    "createCalls (step t st) = createCalls st" "generateCalls (step t st) = generateCalls st"
    "requestId (step t st) = requestId st"
  by (simp_all add: step_blank[OF assms] split: turn.splits)

lemma step_scopingData:
  "trim (submitted t st) \<noteq> [] \<Longrightarrow> scopingData (step t st) = r_updatedData (reply t st)"
  by (simp add: step_accepted)

lemma step_isComplete:
  "trim (submitted t st) \<noteq> [] \<Longrightarrow> isComplete (step t st) = (isComplete st \<or> r_isComplete (reply t st))"
  by (simp add: step_accepted)

lemma r_message_not_thinking: "r_message (processUserInput msgs u d) \<noteq> ''thinking''"
  by (simp add: processUserInput_def firstMessage_def laterMessage_def Let_def split: list.splits)

lemma dropThinking_append [simp]: "dropThinking (xs @ ys) = dropThinking xs @ dropThinking ys"
  by (simp add: dropThinking_def)

lemma dropThinking_idem [simp]: "dropThinking (dropThinking xs) = dropThinking xs"
  by (simp add: dropThinking_def)

lemma dropThinking_keep [simp]: "content m \<noteq> ''thinking'' \<Longrightarrow> dropThinking [m] = [m]"
  by (simp add: dropThinking_def)

lemma step_messages:
  assumes "trim (submitted t st) \<noteq> []"
  shows "\<exists>ms m. messages (step t st) = dropThinking (messages st) @ ms @ [m] \<and> content m \<noteq> ''thinking''"
proof -
  let ?r = "reply t st"
  let ?ai = "\<lparr>mtype = AiMsg, content = r_message ?r, msuggestions = Some (r_suggestions ?r), mdata = r_data ?r\<rparr>"
  let ?S = "showReply (submitted t st) ?r st"
  have ai: "content ?ai \<noteq> ''thinking''"
    using r_message_not_thinking[of "messages st" "submitted t st" "scopingData st"]
    by (simp add: reply_def)
  have e: "content errorMessage \<noteq> ''thinking''" by (simp add: errorMessage_def)
  obtain ms0 where S: "messages ?S = dropThinking (messages st) @ ms0 @ [?ai]"
    using showReply_messages[of "submitted t st" ?r st] by blast
  show ?thesis
  proof (cases "r_isComplete ?r")
    case False
    with assms have "messages (step t st) = messages ?S" by (simp add: step_accepted)
    with S ai have "messages (step t st) = dropThinking (messages st) @ ms0 @ [?ai]
        \<and> content ?ai \<noteq> ''thinking''" by simp
    then show ?thesis by (intro exI)
  next
    case True
    with assms have st: "step t st = finalize (turnEnv t) (submitted t st) (r_updatedData ?r) ?S"
      by (simp add: step_accepted)
    from finalize_messages[of "turnEnv t" "submitted t st" "r_updatedData ?r" ?S]
    show ?thesis
    proof
      assume "messages (finalize (turnEnv t) (submitted t st) (r_updatedData ?r) ?S) = messages ?S"
      with st S ai have "messages (step t st) = dropThinking (messages st) @ ms0 @ [?ai]
        \<and> content ?ai \<noteq> ''thinking''" by simp
      then show ?thesis by (intro exI)
    next
      assume "messages (finalize (turnEnv t) (submitted t st) (r_updatedData ?r) ?S)
                = dropThinking (messages ?S) @ [errorMessage]"
      with st S have "messages (step t st)
          = dropThinking (messages st) @ (dropThinking ms0 @ dropThinking [?ai]) @ [errorMessage]"
        by simp
      with e have "messages (step t st)
          = dropThinking (messages st) @ (dropThinking ms0 @ dropThinking [?ai]) @ [errorMessage]
          \<and> content errorMessage \<noteq> ''thinking''" by simp
      then show ?thesis by (intro exI)
    qed
  qed
qed

lemma step_laterPhase:
  assumes "trim (submitted t st) \<noteq> []" "anchored st"
  shows "laterPhase (step t st)"
proof -
  from step_messages[OF assms(1)] obtain ms m where
    m: "messages (step t st) = dropThinking (messages st) @ ms @ [m]" "content m \<noteq> ''thinking''"
    by blast
  from assms(2) have "dropThinking (messages st) \<noteq> []"
    by (auto simp: anchored_def dropThinking_def filter_empty_conv)
  then have "1 \<le> length (dropThinking (messages st))" by (cases "dropThinking (messages st)") auto
  with m show ?thesis by (auto simp: laterPhase_def anchored_def)
qed

lemma step_keeps_laterPhase: "laterPhase st \<Longrightarrow> laterPhase (step t st)"
proof (cases "trim (submitted t st) = []")
  case True
  assume "laterPhase st"
  with step_blank_data(2)[OF True] show ?thesis by (simp add: laterPhase_def anchored_def)
next
  case False
  assume "laterPhase st"
  then have "anchored st" by (simp add: laterPhase_def)
  with False show ?thesis by (rule step_laterPhase)
qed

lemma anchored_init: "anchored initState"
  by (simp add: anchored_def initState_def welcomeMessage_def)

lemma reply_later: "laterPhase st \<Longrightarrow> reply t st = laterMessage (submitted t st) (scopingData st)"
  by (simp add: reply_def processUserInput_def laterPhase_def)

lemma reply_first: "reply t initState = firstMessage (submitted t initState) emptyData"
  by (simp add: reply_def processUserInput_def initState_def)

subsection \<open>Runs of turns\<close>

lemma extractInitial_taskType [simp]:
  "taskType (extractInitial u d) = Some (extractTaskType u)" "details (extractInitial u d) = Some u"
  "additionalInfo (extractInitial u d) = additionalInfo d"
  by (simp_all add: extractInitial_def Let_def)

lemma first_step:
  assumes "trim (turnText t0) \<noteq> []"
  shows "scopingData (step t0 initState) = extractInitial (turnText t0) emptyData"
    and "laterPhase (step t0 initState)"
    and "isComplete (step t0 initState) = (getMissingInfo (scopingData (step t0 initState)) [] = [])"
proof -
  from assms have s: "submitted t0 initState = turnText t0" by (rule submitted_turnText)
  with assms have a: "trim (submitted t0 initState) \<noteq> []" by simp
  show d: "scopingData (step t0 initState) = extractInitial (turnText t0) emptyData"
    by (simp add: step_scopingData[OF a] reply_first s)
  show "laterPhase (step t0 initState)" using a anchored_init by (rule step_laterPhase)
  have "\<not> isComplete initState" by (simp add: initState_def)
  then have "isComplete (step t0 initState) = r_isComplete (firstMessage (turnText t0) emptyData)"
    by (simp add: step_isComplete[OF a] reply_first s)
  then show "isComplete (step t0 initState) = (getMissingInfo (scopingData (step t0 initState)) [] = [])"
    by (simp add: d firstMessage_complete[of _ _ "[]"])
qed

lemma later_step_data:
  assumes "laterPhase st" "trim (submitted t st) \<noteq> []"
  shows "scopingData (step t st)
           = storeAnswer (headOf (getMissingInfo (scopingData st) [])) (submitted t st) (scopingData st)"
  using assms by (simp add: step_scopingData reply_later laterMessage_data[of _ _ "[]"])

lemma later_step_changes:
  assumes "laterPhase st" "slot f (scopingData (step t st)) \<noteq> slot f (scopingData st)"
  shows "headOf (getMissingInfo (scopingData st) []) = Some f"
    and "slot f (scopingData (step t st)) = answerFor f (submitted t st)"
    and "\<not> truthy (slot f (scopingData st))"
    and "trim (submitted t st) \<noteq> []"
proof -
  show a: "trim (submitted t st) \<noteq> []"
    using assms(2) step_blank_data(1)[of t st] by auto
  note d = later_step_data[OF assms(1) a]
  show h: "headOf (getMissingInfo (scopingData st) []) = Some f"
    using assms(2) storeAnswer_others[of "headOf (getMissingInfo (scopingData st) [])" f]
    unfolding d by auto
  then obtain rest where m: "getMissingInfo (scopingData st) [] = f # rest"
    by (auto simp: headOf_def split: list.splits)
  from missing_head_unmet[OF m] show "\<not> truthy (slot f (scopingData st))" by simp
  from missing_head_unmet(1)[OF m] show "slot f (scopingData (step t st)) = answerFor f (submitted t st)"
    unfolding d h by (rule storeAnswer_head)
qed

lemma later_step_fixed:
  assumes "laterPhase st"
  shows "taskType (scopingData (step t st)) = taskType (scopingData st)"
    and "details (scopingData (step t st)) = details (scopingData st)"
proof -
  show "taskType (scopingData (step t st)) = taskType (scopingData st)"
    using later_step_data[OF assms, of t] step_blank_data(1)[of t st]
    by (cases "trim (submitted t st) = []") simp_all
  show "details (scopingData (step t st)) = details (scopingData st)"
    using later_step_data[OF assms, of t] step_blank_data(1)[of t st]
    by (cases "trim (submitted t st) = []") simp_all
qed

lemma later_run:
  assumes "laterPhase st"
  shows "laterPhase (runTurns ts st)"
    and "taskType (scopingData (runTurns ts st)) = taskType (scopingData st)"
    and "details (scopingData (runTurns ts st)) = details (scopingData st)"
    and "truthy (slot f (scopingData st)) \<Longrightarrow> slot f (scopingData (runTurns ts st)) = slot f (scopingData st)"
  using assms
proof (induction ts arbitrary: st)
  case Nil
  { case 1 then show ?case by simp }
  { case 2 then show ?case by simp }
  { case 3 then show ?case by simp }
  { case 4 then show ?case by simp }
next
  case (Cons t ts)
  { case 1 then show ?case using Cons.IH(1)[of "step t st"] step_keeps_laterPhase[of st t] by simp }
  { case 2 then show ?case
      using Cons.IH(2)[of "step t st"] step_keeps_laterPhase[of st t] later_step_fixed(1)[of st t] by simp }
  { case 3 then show ?case
      using Cons.IH(3)[of "step t st"] step_keeps_laterPhase[of st t] later_step_fixed(2)[of st t] by simp }
  { case 4
    then have "slot f (scopingData (step t st)) = slot f (scopingData st)"
      using later_step_changes(3)[of st f t] by blast
    with 4 show ?case
      using Cons.IH(4)[of "step t st"] step_keeps_laterPhase[of st t] by simp }
qed

lemma later_step_pops:
  assumes "laterPhase st" "trim (submitted t st) \<noteq> []"
  shows "getMissingInfo (scopingData (step t st)) [] = tl (getMissingInfo (scopingData st) [])"
    and "isComplete (step t st) = (isComplete st \<or> getMissingInfo (scopingData (step t st)) [] = [])"
proof -
  from assms(2) have u: "submitted t st \<noteq> []" by (rule trim_nonempty)
  have r: "reply t st = laterMessage (submitted t st) (scopingData st)"
    using assms(1) by (rule reply_later)
  show "getMissingInfo (scopingData (step t st)) [] = tl (getMissingInfo (scopingData st) [])"
    by (simp add: step_scopingData[OF assms(2)] r laterMessage_pops[OF u])
  show "isComplete (step t st) = (isComplete st \<or> getMissingInfo (scopingData (step t st)) [] = [])"
    by (simp add: step_isComplete[OF assms(2)] step_scopingData[OF assms(2)] r
          laterMessage_complete[of _ _ "[]"])
qed

lemma accepted_run:
  "laterPhase st \<Longrightarrow> \<forall>t \<in> set ts. trim (turnText t) \<noteq> [] \<Longrightarrow>
   (getMissingInfo (scopingData st) [] = [] \<longrightarrow> isComplete st) \<Longrightarrow>
   getMissingInfo (scopingData (runTurns ts st)) [] = drop (length ts) (getMissingInfo (scopingData st) [])
   \<and> (getMissingInfo (scopingData (runTurns ts st)) [] = [] \<longrightarrow> isComplete (runTurns ts st))
   \<and> laterPhase (runTurns ts st)"
proof (induction ts arbitrary: st)
  case Nil
  then show ?case by simp
next
  case (Cons t ts)
  from Cons.prems(2) have acc: "trim (submitted t st) \<noteq> []"
    by (simp add: submitted_turnText)
  note p = later_step_pops[OF Cons.prems(1) acc]
  have l: "laterPhase (step t st)" using Cons.prems(1) by (rule step_keeps_laterPhase)
  have c: "getMissingInfo (scopingData (step t st)) [] = [] \<longrightarrow> isComplete (step t st)"
    using p(2) by simp
  from Cons.prems(2) have r: "\<forall>x \<in> set ts. trim (turnText x) \<noteq> []" by simp
  from Cons.IH[OF l r c] show ?case by (simp add: p(1) drop_Suc)
qed

lemma missing_at_most_four: "length (getMissingInfo d t) \<le> 4"
proof -
  have "length (filter (unmet d) requiredOrder) \<le> length requiredOrder" by (rule length_filter_le)
  then show ?thesis by (simp add: getMissingInfo_filter requiredOrder_def)
qed

lemma runTurns_snoc: "runTurns (ts @ [t]) st = step t (runTurns ts st)"
  by (induction ts arbitrary: st) simp_all

lemma specific_is_last:
  "''specific'' \<in> set (getMissingInfo d t) \<Longrightarrow> \<exists>pre. getMissingInfo d t = pre @ [''specific'']"
  by (auto simp: getMissingInfo_def Let_def split: if_splits)

lemma step_last_message:
  assumes "trim (submitted t st) \<noteq> []" "\<not> r_isComplete (reply t st)"
  shows "content (last (messages (step t st))) = r_message (reply t st)"
  using assms by (simp add: step_accepted showReply_messages)

lemma three_types_have_question:
  "tt \<in> {''Trash Removal'', ''Photography'', ''Cleaning''} \<Longrightarrow> getTaskSpecificQuestion (Some tt) \<noteq> None"
  by (auto simp: getTaskSpecificQuestion_def taskQuestions_def or_else_def)

subsection \<open>Finalization\<close>

lemma finalize_throws:
  assumes "generated env = Throws"
  shows "parsedRequest (finalize env mt d st) = parsedRequest st"
    and "requestId (finalize env mt d st) = requestId st"
    and "createCalls (finalize env mt d st) = createCalls st"
    and "messages (finalize env mt d st) = dropThinking (messages st) @ [errorMessage]"
    and "\<not> isProcessing (finalize env mt d st)"
  using assms by (simp_all add: finalize_def generateFinalRequest_def caught_def Let_def)

lemma finalize_returns:
  assumes "generated env = Returns object" "created env = Returns newId"
  shows "parsedRequest (finalize env mt d st)
           = Some \<lparr>pr_taskType = or_else (taskType d) (o_taskType object),
                   pr_skills = o_skills object,
                   pr_location = or_else (location d) (o_location object),
                   pr_duration = o_duration object,
                   pr_suggestedPrice = o_suggestedPrice object,
                   pr_description = o_description object\<rparr>"
    and "requestId (finalize env mt d st) = Some newId"
    and "length (createCalls (finalize env mt d st)) = Suc (length (createCalls st))"
  using assms by (simp_all add: finalize_def generateFinalRequest_def Let_def)

lemma complete_data_stays:
  assumes "laterPhase st" "getMissingInfo (scopingData st) [] = []"
  shows "r_updatedData (reply t st) = scopingData st" and "r_isComplete (reply t st)"
proof -
  have r: "reply t st = laterMessage (submitted t st) (scopingData st)"
    using assms(1) by (rule reply_later)
  show d: "r_updatedData (reply t st) = scopingData st"
    using assms(2) by (simp add: r laterMessage_data[of _ _ "[]"] headOf_def storeAnswer_def)
  show "r_isComplete (reply t st)"
    using assms(2) d by (simp add: r laterMessage_complete[of _ _ "[]"])
qed

subsection \<open>The budget pattern\<close>

lemma not_digit [simp]: "\<not> inCls Digit CHR ''$''" "\<not> inCls Digit CHR ''-''"
  by simp_all

lemma inCls_Lit: "inCls (Lit c) x = (x = c)"
  by simp

declare inCls.simps [simp del]

declare inCls_Lit [simp]

lemma concat_singletons [simp]: "concat (map (\<lambda>x. [x]) xs) = xs"
  by (induction xs) simp_all

lemma rmatch_Eps_fun [simp]: "rmatch Eps = (\<lambda>s. [s])"
  by (rule ext) simp

lemma greedy_hd: "\<exists>others. greedy c s = dropWhile (inCls c) s # others"
  by (induction s) auto

lemma greedy_nonempty [simp]: "greedy c s \<noteq> []"
  using greedy_hd[of c s] by auto

lemma rmatch_rangeRx:
  "rmatch rangeRx t =
     (case t of
        c # y # x \<Rightarrow>
          if c = CHR ''-'' \<and> inCls Digit y then greedy Digit x
          else if c = CHR ''-'' \<and> y = CHR ''$'' then
            (case x of z # x' \<Rightarrow> if inCls Digit z then greedy Digit x' else [] | [] \<Rightarrow> [])
          else []
      | _ \<Rightarrow> [])"
  by (auto simp: rangeRx_def seq_def split: list.splits)

lemma greedy_first: "greedy c x = rest # others \<Longrightarrow> x = takeWhile (inCls c) x @ rest"
  using greedy_hd[of c x] by auto

lemma rmatch_rangeRx_first:
  "(rmatch rangeRx t = [] \<longrightarrow> rangeText t = [])
   \<and> (\<forall>rest others. rmatch rangeRx t = rest # others \<longrightarrow> t = rangeText t @ rest)"
  by (auto simp: rmatch_rangeRx rangeText_def simp del: greedy.simps
           split: list.splits if_splits dest: greedy_first)

lemma rmatch_budgetPattern:
  "rmatch budgetPattern s =
     (case s of
        c # d # r \<Rightarrow>
          if c = CHR ''$'' \<and> inCls Digit d
          then concat (map (\<lambda>x. rmatch rangeRx x @ [x]) (greedy Digit r))
          else []
      | _ \<Rightarrow> [])"
proof -
  have o: "rmatch (Then (Opt rangeRx) Eps) = (\<lambda>x. rmatch rangeRx x @ [x])"
    by (rule ext) simp
  have p: "budgetPattern = Then (One (Lit CHR ''$'')) (Then (Plus Digit) (Then (Opt rangeRx) Eps))"
    by (simp add: budgetPattern_def rangeRx_def seq_def)
  show ?thesis
    unfolding p by (simp add: o split: list.splits)
qed

lemma budget_at_start:
  "(rmatch budgetPattern s = [] \<longleftrightarrow> budgetMatchAt s = None)
   \<and> (\<forall>rest others. rmatch budgetPattern s = rest # others
         \<longrightarrow> (\<exists>m. budgetMatchAt s = Some m \<and> s = m @ rest))"
proof (cases "\<exists>d r. s = CHR ''$'' # d # r \<and> inCls Digit d")
  case False
  then show ?thesis
    by (auto simp: rmatch_budgetPattern budgetMatchAt_def split: list.splits)
next
  case True
  then obtain d r where s: "s = CHR ''$'' # d # r" and d: "inCls Digit d" by blast
  let ?t = "dropWhile (inCls Digit) r"
  obtain others where g: "greedy Digit r = ?t # others" using greedy_hd[of Digit r] by blast
  have e: "rmatch budgetPattern s
      = rmatch rangeRx ?t @ [?t] @ concat (map (\<lambda>x. rmatch rangeRx x @ [x]) others)"
    using s d g by (simp add: rmatch_budgetPattern)
  have m: "budgetMatchAt s = Some (CHR ''$'' # d # takeWhile (inCls Digit) r @ rangeText ?t)"
    using s d by (simp add: budgetMatchAt_def)
  have split: "s = (CHR ''$'' # d # takeWhile (inCls Digit) r @ rangeText ?t) @ rest"
    if "?t = rangeText ?t @ rest" for rest
  proof -
    have "r = takeWhile (inCls Digit) r @ ?t" by simp
    with that have "r = takeWhile (inCls Digit) r @ rangeText ?t @ rest" by simp
    with s show ?thesis by simp
  qed
  show ?thesis
  proof (cases "rmatch rangeRx ?t")
    case Nil
    with rmatch_rangeRx_first[of ?t] have "rangeText ?t = []" by blast
    then have "?t = rangeText ?t @ ?t" by simp
    from split[OF this] e Nil m show ?thesis by simp
  next
    case (Cons rest0 more0)
    with rmatch_rangeRx_first[of ?t] have "?t = rangeText ?t @ rest0" by blast
    from split[OF this] e Cons m show ?thesis by simp
  qed
qed

lemma budgetMatchAt_None:
  "budgetMatchAt s = None \<longleftrightarrow> \<not> (\<exists>d r. s = CHR ''$'' # d # r \<and> inCls Digit d)"
  by (auto simp: budgetMatchAt_def split: list.splits)

lemma budgetMatchAt_extend: "budgetMatchAt s \<noteq> None \<Longrightarrow> budgetMatchAt (s @ x) \<noteq> None"
  unfolding budgetMatchAt_None by auto

lemma extractBudget_Nil [simp]: "extractBudget [] = None"
  using budget_at_start[of "[]"] by (simp add: extractBudget_def budgetMatchAt_def)

lemma extractBudget_Cons:
  "extractBudget (c # cs) =
     (case budgetMatchAt (c # cs) of Some m \<Rightarrow> Some m | None \<Rightarrow> extractBudget cs)"
proof (cases "rmatch budgetPattern (c # cs)")
  case Nil
  with budget_at_start[of "c # cs"] have "budgetMatchAt (c # cs) = None" by simp
  with Nil show ?thesis by (simp add: extractBudget_def)
next
  case (Cons rest others)
  with budget_at_start[of "c # cs"] obtain m where
    m: "budgetMatchAt (c # cs) = Some m" "c # cs = m @ rest" by blast
  from m(2) have "length (c # cs) - length rest = length m"
    by (metis add_diff_cancel_right' length_append)
  then have "take (length (c # cs) - length rest) (c # cs) = m"
    using m(2) by (metis append_eq_conv_conj)
  with Cons m(1) show ?thesis by (simp add: extractBudget_def)
qed

lemma extractBudget_None:
  "extractBudget text = None \<longleftrightarrow> (\<forall>ps s. text = ps @ s \<longrightarrow> budgetMatchAt s = None)"
proof (induction "text")
  case Nil
  then show ?case by (simp add: budgetMatchAt_def)
next
  case (Cons c cs)
  show ?case
  proof
    assume n: "extractBudget (c # cs) = None"
    then have a: "budgetMatchAt (c # cs) = None" and b: "extractBudget cs = None"
      by (auto simp: extractBudget_Cons split: option.splits)
    show "\<forall>ps s. c # cs = ps @ s \<longrightarrow> budgetMatchAt s = None"
    proof (intro allI impI)
      fix ps s
      assume e: "c # cs = ps @ s"
      show "budgetMatchAt s = None"
      proof (cases ps)
        case Nil
        with e a show ?thesis by simp
      next
        case (Cons p ps')
        with e have "cs = ps' @ s" by simp
        with b Cons.IH show ?thesis by blast
      qed
    qed
  next
    assume h: "\<forall>ps s. c # cs = ps @ s \<longrightarrow> budgetMatchAt s = None"
    then have a: "budgetMatchAt (c # cs) = None" by (metis append_Nil)
    have "\<forall>ps s. cs = ps @ s \<longrightarrow> budgetMatchAt s = None"
      using h by (metis append_Cons)
    with Cons.IH have "extractBudget cs = None" by simp
    with a show "extractBudget (c # cs) = None" by (simp add: extractBudget_Cons)
  qed
qed

lemma extractBudget_Some:
  "extractBudget text = Some m \<Longrightarrow>
     \<exists>ps ss. text = ps @ m @ ss \<and> budgetMatchAt (m @ ss) = Some m \<and> extractBudget ps = None"
proof (induction "text")
  case Nil
  then show ?case by simp
next
  case (Cons c cs)
  show ?case
  proof (cases "budgetMatchAt (c # cs)")
    case (Some m0)
    with Cons.prems have e: "m0 = m" by (simp add: extractBudget_Cons)
    from budget_at_start[of "c # cs"] Some obtain rest others where
      "rmatch budgetPattern (c # cs) = rest # others"
      by (cases "rmatch budgetPattern (c # cs)") auto
    with budget_at_start[of "c # cs"] Some e have "c # cs = m @ rest" by auto
    with Some e have "c # cs = [] @ m @ rest \<and> budgetMatchAt (m @ rest) = Some m \<and> extractBudget [] = None"
      by simp
    then show ?thesis by blast
  next
    case None
    with Cons.prems have "extractBudget cs = Some m" by (simp add: extractBudget_Cons)
    with Cons.IH obtain ps ss where
      p: "cs = ps @ m @ ss" "budgetMatchAt (m @ ss) = Some m" "extractBudget ps = None"
      by blast
    have "budgetMatchAt (c # ps) = None"
    proof (rule ccontr)
      assume "budgetMatchAt (c # ps) \<noteq> None"
      then have "budgetMatchAt ((c # ps) @ m @ ss) \<noteq> None" by (rule budgetMatchAt_extend)
      with None p(1) show False by simp
    qed
    with p(3) have "extractBudget (c # ps) = None" by (simp add: extractBudget_Cons)
    with p have "c # cs = (c # ps) @ m @ ss \<and> budgetMatchAt (m @ ss) = Some m \<and> extractBudget (c # ps) = None"
      by simp
    then show ?thesis by blast
  qed
qed

lemma digits_prefix_takeWhile:
  assumes "\<forall>c \<in> set a. P c" "prefix a xs"
  shows "length a \<le> length (takeWhile P xs)"
proof -
  from assms(2) obtain zs where "xs = a @ zs" by (auto simp: prefix_def)
  with assms(1) have "takeWhile P xs = a @ takeWhile P zs" by (simp add: takeWhile_append2)
  then show ?thesis by simp
qed

lemma digits_then_other:
  assumes "\<forall>c \<in> set a. P c" "\<not> P x" "prefix (a @ x # y) xs"
  shows "takeWhile P xs = a" and "prefix (x # y) (dropWhile P xs)"
proof -
  from assms(3) obtain zs where xs: "xs = a @ (x # y @ zs)" by (auto simp: prefix_def)
  from assms(1,2) show "takeWhile P xs = a" unfolding xs by (simp add: takeWhile_append2)
  from assms(1,2) have "dropWhile P xs = x # y @ zs" unfolding xs by (simp add: dropWhile_append2)
  then show "prefix (x # y) (dropWhile P xs)" by simp
qed

lemma rangeText_shape:
  "rangeText t = [] \<or> (\<exists>b. isInteger b \<and> (rangeText t = ''-'' @ b \<or> rangeText t = ''-$'' @ b))"
proof -
  have i: "isInteger (y # takeWhile (inCls Digit) x)" if "inCls Digit y" for y x
    using that by (auto simp: isInteger_def dest: set_takeWhileD)
  show ?thesis
  proof (cases "rangeText t = []")
    case False
    then consider (a) y x where "t = CHR ''-'' # y # x" "inCls Digit y"
      | (b) z x' where "t = CHR ''-'' # CHR ''$'' # z # x'" "inCls Digit z"
      by (auto simp: rangeText_def split: list.splits if_splits)
    then show ?thesis
    proof cases
      case a
      then have "rangeText t = ''-'' @ (y # takeWhile (inCls Digit) x)" by (simp add: rangeText_def)
      with i[OF a(2)] show ?thesis by blast
    next
      case b
      then have "rangeText t = ''-$'' @ (z # takeWhile (inCls Digit) x')" by (simp add: rangeText_def)
      with i[OF b(2)] show ?thesis by blast
    qed
  qed simp
qed

lemma budgetMatchAt_shape:
  assumes "budgetMatchAt s = Some m"
  shows "budgetText m"
proof -
  from assms obtain d r where s: "s = CHR ''$'' # d # r" and d: "inCls Digit d"
    and m: "m = CHR ''$'' # d # takeWhile (inCls Digit) r @ rangeText (dropWhile (inCls Digit) r)"
    by (auto simp: budgetMatchAt_def split: list.splits if_splits)
  let ?a = "d # takeWhile (inCls Digit) r"
  have a: "isInteger ?a" using d by (auto simp: isInteger_def dest: set_takeWhileD)
  have m': "m = ''$'' @ ?a @ rangeText (dropWhile (inCls Digit) r)" using m by simp
  from rangeText_shape[of "dropWhile (inCls Digit) r"] show ?thesis
  proof
    assume "rangeText (dropWhile (inCls Digit) r) = []"
    with m' have "m = ''$'' @ ?a" by simp
    with a show ?thesis unfolding budgetText_def by blast
  next
    assume "\<exists>b. isInteger b \<and> (rangeText (dropWhile (inCls Digit) r) = ''-'' @ b
                \<or> rangeText (dropWhile (inCls Digit) r) = ''-$'' @ b)"
    then obtain b where b: "isInteger b"
      and r: "rangeText (dropWhile (inCls Digit) r) = ''-'' @ b
                \<or> rangeText (dropWhile (inCls Digit) r) = ''-$'' @ b" by blast
    from r m' have "m = ''$'' @ ?a @ ''-'' @ b \<or> m = ''$'' @ ?a @ ''-$'' @ b" by auto
    with a b show ?thesis unfolding budgetText_def by blast
  qed
qed

lemma budgetMatchAt_longest:
  assumes "budgetMatchAt s = Some m" "budgetText m'" "prefix m' s"
  shows "length m' \<le> length m"
proof -
  let ?D = "inCls Digit"
  from assms(1) obtain d r where s: "s = CHR ''$'' # d # r" and d: "?D d"
    and m: "m = CHR ''$'' # d # takeWhile ?D r @ rangeText (dropWhile ?D r)"
    by (auto simp: budgetMatchAt_def split: list.splits if_splits)
  let ?t = "dropWhile ?D r"
  have tw: "takeWhile ?D (d # r) = d # takeWhile ?D r" and dw: "dropWhile ?D (d # r) = ?t"
    using d by simp_all
  have lm: "length m = 2 + length (takeWhile ?D r) + length (rangeText ?t)" using m by simp
  from assms(2) obtain a where a: "isInteger a"
    and c: "m' = ''$'' @ a \<or> (\<exists>b. isInteger b \<and> (m' = ''$'' @ a @ ''-'' @ b \<or> m' = ''$'' @ a @ ''-$'' @ b))"
    unfolding budgetText_def by blast
  from a have da: "\<forall>c \<in> set a. ?D c" by (simp add: isInteger_def)
  from c show ?thesis
  proof (elim disjE exE conjE)
    assume e: "m' = ''$'' @ a"
    with assms(3) s have "prefix a (d # r)" by simp
    from digits_prefix_takeWhile[OF da this] have "length a \<le> length (d # takeWhile ?D r)"
      unfolding tw .
    then have "length a \<le> Suc (length (takeWhile ?D r))" by simp
    with e lm show ?thesis by simp
  next
    fix b
    assume b: "isInteger b" and e: "m' = ''$'' @ a @ ''-'' @ b"
    then obtain y b' where y: "b = y # b'" "?D y" "\<forall>c \<in> set b'. ?D c"
      by (cases b) (auto simp: isInteger_def)
    from e assms(3) s have p: "prefix (a @ CHR ''-'' # b) (d # r)" by simp
    have nd: "\<not> ?D CHR ''-''" by simp
    from digits_then_other[OF da nd p] have ta: "d # takeWhile ?D r = a" and pt: "prefix (CHR ''-'' # b) ?t"
      unfolding tw dw .
    from pt y(1) obtain x where t: "?t = CHR ''-'' # y # x" and px: "prefix b' x"
      by (cases ?t; cases "tl ?t") (auto simp: prefix_def)
    have "rangeText ?t = CHR ''-'' # y # takeWhile ?D x"
      using y(2) by (simp add: rangeText_def t)
    moreover from digits_prefix_takeWhile[OF y(3) px] have "length b' \<le> length (takeWhile ?D x)" .
    moreover from ta have "length a = Suc (length (takeWhile ?D r))" by auto
    ultimately show ?thesis using e y(1) lm by simp
  next
    fix b
    assume b: "isInteger b" and e: "m' = ''$'' @ a @ ''-$'' @ b"
    then obtain z b' where z: "b = z # b'" "?D z" "\<forall>c \<in> set b'. ?D c"
      by (cases b) (auto simp: isInteger_def)
    from e assms(3) s have p: "prefix (a @ CHR ''-'' # (CHR ''$'' # b)) (d # r)" by simp
    have nd: "\<not> ?D CHR ''-''" by simp
    from digits_then_other[OF da nd p] have ta: "d # takeWhile ?D r = a"
      and pt: "prefix (CHR ''-'' # CHR ''$'' # b) ?t"
      unfolding tw dw .
    from pt z(1) obtain x where t: "?t = CHR ''-'' # CHR ''$'' # z # x" and px: "prefix b' x"
      by (cases ?t; cases "tl ?t"; cases "tl (tl ?t)") (auto simp: prefix_def)
    have "rangeText ?t = CHR ''-'' # CHR ''$'' # z # takeWhile ?D x"
      using z(2) by (simp add: rangeText_def t)
    moreover from digits_prefix_takeWhile[OF z(3) px] have "length b' \<le> length (takeWhile ?D x)" .
    moreover from ta have "length a = Suc (length (takeWhile ?D r))" by auto
    ultimately show ?thesis using e z(1) lm by simp
  qed
qed

lemma no_budget_iff:
  "extractBudget text = None \<longleftrightarrow> \<not> (\<exists>ps d ss. text = ps @ CHR ''$'' # d # ss \<and> inCls Digit d)"
  unfolding extractBudget_None budgetMatchAt_None by blast

declare inCls_Lit [simp del]

declare inCls.simps [simp]

subsection \<open>Slots of reachable states\<close>

lemma extractInitial_clean:
  assumes "\<forall>f. slot f d \<noteq> Some []"
  shows "slot f (extractInitial u d) \<noteq> Some []"
proof -
  have s: "specificOf (extractInitial u d) = specificOf d" by (simp add: specificOf_def)
  from assms have "location d \<noteq> Some []" "budget d \<noteq> Some []" "timeline d \<noteq> Some []"
      "specificOf d \<noteq> Some []"
    using assms[rule_format, of "''location''"] assms[rule_format, of "''budget''"]
      assms[rule_format, of "''timeline''"] assms[rule_format, of "''specific''"]
    by (simp_all add: slot_def)
  then show ?thesis
    using s by (auto simp: slot_def extractInitial_def Let_def truthy_def split: option.splits)
qed

lemma storeAnswer_clean:
  assumes "\<forall>f. slot f d \<noteq> Some []" "u \<noteq> []"
  shows "slot f (storeAnswer q u d) \<noteq> Some []"
proof (cases "q = Some f \<and> f \<in> set requiredOrder")
  case True
  then have "slot f (storeAnswer q u d) = answerFor f u" by (simp add: storeAnswer_head)
  with answerFor_truthy[OF assms(2), of f] show ?thesis by auto
next
  case False
  show ?thesis
  proof (cases "q = Some f")
    case True
    with False have "f \<notin> set requiredOrder" by simp
    then have "slot f (storeAnswer q u d) = None" by (simp add: slot_def requiredOrder_def)
    then show ?thesis by simp
  next
    case False
    then have "slot f (storeAnswer q u d) = slot f d" by (rule storeAnswer_others)
    with assms(1) show ?thesis by simp
  qed
qed

lemma step_clean:
  assumes "\<forall>f. slot f (scopingData st) \<noteq> Some []"
  shows "slot f (scopingData (step t st)) \<noteq> Some []"
proof (cases "trim (submitted t st) = []")
  case True
  with assms show ?thesis by (simp add: step_blank_data(1))
next
  case False
  then have u: "submitted t st \<noteq> []" by (rule trim_nonempty)
  have d: "scopingData (step t st) = r_updatedData (reply t st)" using False by (rule step_scopingData)
  show ?thesis
  proof (cases "length (messages st) \<le> 1")
    case True
    then have "r_updatedData (reply t st) = extractInitial (submitted t st) (scopingData st)"
      by (simp add: reply_def processUserInput_def)
    with extractInitial_clean[OF assms] d show ?thesis by simp
  next
    case False
    then have "r_updatedData (reply t st)
        = storeAnswer (headOf (getMissingInfo (scopingData st) [])) (submitted t st) (scopingData st)"
      by (simp add: reply_def processUserInput_def laterMessage_data[of _ _ "[]"])
    with storeAnswer_clean[OF assms u] d show ?thesis by simp
  qed
qed

lemma run_clean:
  "\<forall>f. slot f (scopingData st) \<noteq> Some [] \<Longrightarrow> slot f (scopingData (runTurns ts st)) \<noteq> Some []"
proof (induction ts arbitrary: st f)
  case Nil
  then show ?case by simp
next
  case (Cons t ts)
  from Cons.prems have "\<forall>g. slot g (scopingData (step t st)) \<noteq> Some []"
    using step_clean[of st _ t] by blast
  from Cons.IH[OF this] show ?case by simp
qed

lemma init_clean: "slot f (scopingData initState) \<noteq> Some []"
  by (simp add: slot_def initState_def emptyData_def specificOf_def)

lemma reachable_set_iff_present:
  "truthy (slot f (scopingData (runTurns ts initState)))
     \<longleftrightarrow> slot f (scopingData (runTurns ts initState)) \<noteq> None"
  using run_clean[of initState f ts] init_clean
  by (cases "slot f (scopingData (runTurns ts initState))") auto

subsection \<open>The UserDashboard variant\<close>

lemma dashboard_keywords_skip_specific:
  "taskType d = Some tt \<Longrightarrow> hasTaskSpecificInfo u tt \<Longrightarrow> ''specific'' \<notin> set (dashboardGetMissingInfo d u)"
  by (auto simp: dashboardGetMissingInfo_def Let_def)

lemma dashboard_policy_reads_text:
  "dashboardGetMissingInfo emptyData ''my home'' = [''budget'', ''timeline'']
   \<and> dashboardGetMissingInfo emptyData ''my car'' = [''location'', ''budget'', ''timeline'']"
  by code_simp

section \<open>The claims\<close>

text \<open>
  Claim C1. \<open>getMissingInfo\<close> returns the empty list if and only if location, budget and
  timeline are set and the task-specific slot is set or the task type has no registered
  follow-up question; and \<open>processUserInput\<close> reports completion exactly when the list for
  the data it returns is empty. A slot is set when its value is truthy, which is how the
  code tests it; in every state the dialogue reaches from its initial state a slot is
  truthy exactly when it is present, since no turn stores an empty string.
\<close>

theorem complete_iff_required_slots_set:
  "(getMissingInfo d t = [] \<longleftrightarrow>
      truthy (location d) \<and> truthy (budget d) \<and> truthy (timeline d)
      \<and> (truthy (specificOf d) \<or> getTaskSpecificQuestion (taskType d) = None))
   \<and> (r_isComplete (processUserInput msgs u d) \<longleftrightarrow>
        getMissingInfo (r_updatedData (processUserInput msgs u d)) t = [])
   \<and> (truthy (slot f (scopingData (runTurns ts initState)))
        \<longleftrightarrow> slot f (scopingData (runTurns ts initState)) \<noteq> None)"
  using getMissingInfo_Nil[of d t] processUserInput_complete[of msgs u d t]
    reachable_set_iff_present[of f ts]
  by blast

theorem complete_iff_required_slots_set_witness:
  "getMissingInfo cleaningDone [] = []
   \<and> getMissingInfo cleaningAsked [] \<noteq> []
   \<and> getTaskSpecificQuestion (taskType cleaningDone) = Some ''What type of cleaning do you need?''"
proof -
  have q: "getTaskSpecificQuestion (taskType cleaningDone) = Some ''What type of cleaning do you need?''"
    "getTaskSpecificQuestion (taskType cleaningAsked) = Some ''What type of cleaning do you need?''"
    by (simp_all add: cleaningDone_def cleaningAsked_def getTaskSpecificQuestion_def
          taskQuestions_def or_else_def)
  have v: "truthy (location cleaningDone)" "truthy (budget cleaningDone)" "truthy (timeline cleaningDone)"
    "truthy (specificOf cleaningDone)" "\<not> truthy (specificOf cleaningAsked)"
    by (simp_all add: cleaningDone_def cleaningAsked_def specificOf_def)
  from v q complete_iff_required_slots_set[of cleaningDone "[]"]
  have 1: "getMissingInfo cleaningDone [] = []" by blast
  from v q complete_iff_required_slots_set[of cleaningAsked "[]"]
  have 2: "getMissingInfo cleaningAsked [] \<noteq> []" by auto
  from 1 2 q(1) show ?thesis by blast
qed

text \<open>
  Claim C2. The first accepted turn sets \<open>taskType\<close> from the utterance (and keeps the
  utterance as \<open>details\<close>); no later turn changes either. Whatever turns follow, a slot
  that is set keeps its value. A turn changes a slot only when that slot is the head of the
  missing-field list and is unset; the value stored is the utterance verbatim, except for
  budget, the field being asked on that turn, where it is the budget extractor's match if
  there is one and the utterance otherwise.
\<close>

theorem slots_immutable_once_set:
  "trim (turnText t0) \<noteq> [] \<longrightarrow>
     taskType (scopingData (step t0 initState)) = Some (extractTaskType (turnText t0))
     \<and> details (scopingData (step t0 initState)) = Some (turnText t0)
     \<and> taskType (scopingData (runTurns ts (step t0 initState))) = taskType (scopingData (step t0 initState))
     \<and> details (scopingData (runTurns ts (step t0 initState))) = details (scopingData (step t0 initState))
     \<and> (\<forall>f. truthy (slot f (scopingData (runTurns ts (step t0 initState))))
           \<longrightarrow> slot f (scopingData (runTurns ts' (runTurns ts (step t0 initState))))
                 = slot f (scopingData (runTurns ts (step t0 initState))))
     \<and> (\<forall>f. slot f (scopingData (step tn (runTurns ts (step t0 initState))))
               \<noteq> slot f (scopingData (runTurns ts (step t0 initState)))
           \<longrightarrow> headOf (getMissingInfo (scopingData (runTurns ts (step t0 initState))) []) = Some f
               \<and> \<not> truthy (slot f (scopingData (runTurns ts (step t0 initState))))
               \<and> slot f (scopingData (step tn (runTurns ts (step t0 initState))))
                   = answerFor f (submitted tn (runTurns ts (step t0 initState))))"
proof
  assume a: "trim (turnText t0) \<noteq> []"
  let ?st1 = "step t0 initState"
  let ?st = "runTurns ts ?st1"
  note f = first_step[OF a]
  have l: "laterPhase ?st" using f(2) by (rule later_run(1))
  show "taskType (scopingData ?st1) = Some (extractTaskType (turnText t0))
     \<and> details (scopingData ?st1) = Some (turnText t0)
     \<and> taskType (scopingData ?st) = taskType (scopingData ?st1)
     \<and> details (scopingData ?st) = details (scopingData ?st1)
     \<and> (\<forall>f. truthy (slot f (scopingData ?st))
           \<longrightarrow> slot f (scopingData (runTurns ts' ?st)) = slot f (scopingData ?st))
     \<and> (\<forall>f. slot f (scopingData (step tn ?st)) \<noteq> slot f (scopingData ?st)
           \<longrightarrow> headOf (getMissingInfo (scopingData ?st) []) = Some f
               \<and> \<not> truthy (slot f (scopingData ?st))
               \<and> slot f (scopingData (step tn ?st)) = answerFor f (submitted tn ?st))"
    using f(1) later_run(2,3)[OF f(2), of ts] later_run(4)[OF l, of _ ts']
      later_step_changes(1,2,3)[OF l, of _ tn]
    by simp
qed

theorem slots_immutable_once_set_witness:
  "trim (turnText (Clicked okEnv ''Need deep cleaning'')) \<noteq> []
   \<and> taskType (scopingData (runTurns cleaningTurns (step (Clicked okEnv ''Need deep cleaning'') initState)))
       = Some ''Cleaning''
   \<and> slot ''location''
         (scopingData (runTurns [Typed okEnv ''Actually I am in Boston'']
            (runTurns [Typed okEnv ''Austin, TX''] (step (Clicked okEnv ''Need deep cleaning'') initState))))
       = Some ''Austin, TX''
   \<and> slot ''budget''
         (scopingData (step (Typed okEnv ''about $75 or so'')
            (runTurns [Typed okEnv ''Austin, TX''] (step (Clicked okEnv ''Need deep cleaning'') initState))))
       = Some ''$75''"
proof -
  let ?t0 = "Clicked okEnv ''Need deep cleaning''"
  let ?st = "runTurns [Typed okEnv ''Austin, TX''] (step ?t0 initState)"
  have a: "trim (turnText ?t0) \<noteq> []" by code_simp
  have b: "extractTaskType (turnText ?t0) = ''Cleaning''" by code_simp
  have c: "slot ''location'' (scopingData ?st) = Some ''Austin, TX''" by code_simp
  have d: "slot ''budget'' (scopingData ?st) = None" by code_simp
  have e: "slot ''budget'' (scopingData (step (Typed okEnv ''about $75 or so'') ?st)) \<noteq> None"
    by code_simp
  have g: "answerFor ''budget'' (submitted (Typed okEnv ''about $75 or so'') ?st) = Some ''$75''"
    by code_simp
  note T1 = slots_immutable_once_set[of ?t0 cleaningTurns "[]" ?t0]
  note T2 = slots_immutable_once_set[of ?t0 "[Typed okEnv ''Austin, TX'']"
      "[Typed okEnv ''Actually I am in Boston'']" "Typed okEnv ''about $75 or so''"]
  from T1 a b have 1: "taskType (scopingData (runTurns cleaningTurns (step ?t0 initState))) = Some ''Cleaning''"
    by simp
  from T2 a c have 2: "slot ''location'' (scopingData (runTurns [Typed okEnv ''Actually I am in Boston''] ?st))
      = Some ''Austin, TX''"
    by simp
  from T2 a d e g have 3: "slot ''budget'' (scopingData (step (Typed okEnv ''about $75 or so'') ?st)) = Some ''$75''"
    by (metis (no_types, lifting))
  from a 1 2 3 show ?thesis by blast
qed

text \<open>
  Claim C3. \<open>extractTaskType\<close> is the first matching rule of the table
  trash/garbage, photo/photographer, clean, wifi/internet/tech, design/logo/graphic,
  move/moving, repair/fix on the lower-cased text: when two rules match, the result is the
  category of a rule no later than the earlier one and is not the later rule's category;
  the least matching rule gives the result; a text matching no rule gives
  \<open>General Service\<close>.
\<close>

theorem extractTaskType_first_rule_wins:
  "extractTaskType text =
     (case firstRule taskTypeRules (toLowerCase text) of Some c \<Rightarrow> c | None \<Rightarrow> ''General Service'')
   \<and> (\<forall>i j. i < j \<and> j < length taskTypeRules
         \<and> ruleMatches (toLowerCase text) (taskTypeRules ! i)
         \<and> ruleMatches (toLowerCase text) (taskTypeRules ! j)
        \<longrightarrow> extractTaskType text \<in> snd ` set (take (Suc i) taskTypeRules)
            \<and> extractTaskType text \<noteq> snd (taskTypeRules ! j))
   \<and> (\<forall>i < length taskTypeRules.
         ruleMatches (toLowerCase text) (taskTypeRules ! i)
         \<and> (\<forall>j<i. \<not> ruleMatches (toLowerCase text) (taskTypeRules ! j))
        \<longrightarrow> extractTaskType text = snd (taskTypeRules ! i))
   \<and> ((\<forall>r \<in> set taskTypeRules. \<not> ruleMatches (toLowerCase text) r)
        \<longrightarrow> extractTaskType text = ''General Service'')"
proof (intro conjI allI impI)
  show eq: "extractTaskType text =
     (case firstRule taskTypeRules (toLowerCase text) of Some c \<Rightarrow> c | None \<Rightarrow> ''General Service'')"
    by (rule extractTaskType_table)
  {
    fix i j
    assume h: "i < j \<and> j < length taskTypeRules
         \<and> ruleMatches (toLowerCase text) (taskTypeRules ! i)
         \<and> ruleMatches (toLowerCase text) (taskTypeRules ! j)"
    then obtain m where m: "m \<le> i"
        "firstRule taskTypeRules (toLowerCase text) = Some (snd (taskTypeRules ! m))"
        "snd (taskTypeRules ! m) \<noteq> snd (taskTypeRules ! j)"
      using firstRule_earlier[OF _ _ _ taskTypeRules_distinct, of i j "toLowerCase text"] by blast
    from m(2) have r: "extractTaskType text = snd (taskTypeRules ! m)"
      by (simp add: eq)
    from h m(1) have "m < length (take (Suc i) taskTypeRules)" by simp
    then have "take (Suc i) taskTypeRules ! m \<in> set (take (Suc i) taskTypeRules)"
      by (rule nth_mem)
    with m(1) have "taskTypeRules ! m \<in> set (take (Suc i) taskTypeRules)" by simp
    with r show "extractTaskType text \<in> snd ` set (take (Suc i) taskTypeRules)" by blast
    from r m(3) show "extractTaskType text \<noteq> snd (taskTypeRules ! j)" by simp
  }
  {
    fix i
    assume "i < length taskTypeRules"
      and "ruleMatches (toLowerCase text) (taskTypeRules ! i)
         \<and> (\<forall>j<i. \<not> ruleMatches (toLowerCase text) (taskTypeRules ! j))"
    then have "firstRule taskTypeRules (toLowerCase text) = Some (snd (taskTypeRules ! i))"
      by (simp add: firstRule_least)
    then show "extractTaskType text = snd (taskTypeRules ! i)" by (simp add: eq)
  }
  {
    assume "\<forall>r \<in> set taskTypeRules. \<not> ruleMatches (toLowerCase text) r"
    then have "firstRule taskTypeRules (toLowerCase text) = None" by (rule firstRule_none)
    then show "extractTaskType text = ''General Service''" by (simp add: eq)
  }
qed

theorem extractTaskType_first_rule_wins_witness:
  "ruleMatches (toLowerCase ''Clean up my PHOTOS'') (taskTypeRules ! 1)
   \<and> ruleMatches (toLowerCase ''Clean up my PHOTOS'') (taskTypeRules ! 2)
   \<and> extractTaskType ''Clean up my PHOTOS'' = ''Photography''
   \<and> extractTaskType ''Clean up my PHOTOS'' \<noteq> ''Cleaning''"
proof -
  have m1: "ruleMatches (toLowerCase ''Clean up my PHOTOS'') (taskTypeRules ! 1)"
    by (simp add: lower_clean ruleMatches_def taskTypeRules_def)
  have m2: "ruleMatches (toLowerCase ''Clean up my PHOTOS'') (taskTypeRules ! 2)"
    by (simp add: lower_clean ruleMatches_def taskTypeRules_def)
  have m0: "\<not> ruleMatches (toLowerCase ''Clean up my PHOTOS'') (taskTypeRules ! 0)"
    by (simp add: lower_clean ruleMatches_def taskTypeRules_def)
  have len: "(1::nat) < length taskTypeRules" by (simp add: taskTypeRules_def)
  have "\<forall>j<(1::nat). \<not> ruleMatches (toLowerCase ''Clean up my PHOTOS'') (taskTypeRules ! j)"
    using m0 by simp
  with m1 len extractTaskType_first_rule_wins[of "''Clean up my PHOTOS''"]
  have "extractTaskType ''Clean up my PHOTOS'' = snd (taskTypeRules ! 1)" by blast
  then have "extractTaskType ''Clean up my PHOTOS'' = ''Photography''"
    by (simp add: taskTypeRules_def)
  with m1 m2 show ?thesis by simp
qed

text \<open>
  Claim C4, as stated, fails here. The first utterance \<open>Need deep cleaning\<close> has task type
  Cleaning and contains the keyword \<open>deep\<close>, yet the first turn leaves the task-specific
  slot unset, and once location, budget and timeline are answered the dialogue asks the
  cleaning follow-up question.
\<close>

theorem specific_keywords_counterexample:
  "extractTaskType ''Need deep cleaning'' = ''Cleaning''
   \<and> hasTaskSpecificInfo ''Need deep cleaning'' ''Cleaning''
   \<and> specificOf (scopingData (step (Clicked okEnv ''Need deep cleaning'') initState)) = None
   \<and> getMissingInfo (scopingData cleaningAskedState) [] = [''specific'']
   \<and> content (last (messages cleaningAskedState)) = ''Got it! What type of cleaning do you need?''"
  by code_simp

text \<open>
  Claim C4, amended. For every first utterance whose task type is Trash Removal,
  Photography or Cleaning, whatever keywords it contains, the first turn leaves the
  task-specific slot unset, \<open>specific\<close> is in the missing-field list and the dialogue is not
  complete; once the fields ahead of it are answered, the last message shown is the
  follow-up question of that task type.
\<close>

theorem specific_slot_needs_its_own_answer:
  "trim (turnText t0) \<noteq> []
   \<and> extractTaskType (turnText t0) \<in> {''Trash Removal'', ''Photography'', ''Cleaning''}
   \<and> (\<forall>t \<in> set ts. trim (turnText t) \<noteq> [])
   \<longrightarrow>
     specificOf (scopingData (step t0 initState)) = None
     \<and> ''specific'' \<in> set (getMissingInfo (scopingData (step t0 initState)) [])
     \<and> \<not> isComplete (step t0 initState)
     \<and> (Suc (length ts) = length (getMissingInfo (scopingData (step t0 initState)) []) \<longrightarrow>
          getMissingInfo (scopingData (runTurns ts (step t0 initState))) [] = [''specific'']
          \<and> content (last (messages (runTurns ts (step t0 initState))))
              = (if ts = []
                 then ''Perfect! I understand you need '' @ toLowerCase (extractTaskType (turnText t0)) @ ''. ''
                 else ''Got it! '')
                @ getNextQuestion ''specific'' (Some (extractTaskType (turnText t0))))"
proof
  let ?u = "turnText t0"
  let ?st1 = "step t0 initState"
  let ?m1 = "getMissingInfo (scopingData ?st1) []"
  assume h: "trim ?u \<noteq> [] \<and> extractTaskType ?u \<in> {''Trash Removal'', ''Photography'', ''Cleaning''}
     \<and> (\<forall>t \<in> set ts. trim (turnText t) \<noteq> [])"
  then have a0: "trim ?u \<noteq> []" and ats: "\<forall>t \<in> set ts. trim (turnText t) \<noteq> []"
    and tt: "extractTaskType ?u \<in> {''Trash Removal'', ''Photography'', ''Cleaning''}"
    by simp_all
  note f = first_step[OF a0]
  have sp: "specificOf (scopingData ?st1) = None"
    by (simp add: f(1) specificOf_def emptyData_def)
  have q: "getTaskSpecificQuestion (taskType (scopingData ?st1)) \<noteq> None"
    using three_types_have_question[OF tt] by (simp add: f(1))
  have "unmet (scopingData ?st1) ''specific''"
    using sp q by (simp add: unmet_def applicable_def slot_def requiredOrder_def)
  then have mem: "''specific'' \<in> set ?m1"
    by (simp add: getMissingInfo_filter requiredOrder_def)
  then have ne: "?m1 \<noteq> []" by auto
  with f(3) have nc: "\<not> isComplete ?st1" by simp
  have ask: "getMissingInfo (scopingData (runTurns ts ?st1)) [] = [''specific'']
          \<and> content (last (messages (runTurns ts ?st1)))
              = (if ts = []
                 then ''Perfect! I understand you need '' @ toLowerCase (extractTaskType ?u) @ ''. ''
                 else ''Got it! '')
                @ getNextQuestion ''specific'' (Some (extractTaskType ?u))"
    if len: "Suc (length ts) = length ?m1"
  proof -
    from specific_is_last[OF mem] obtain pre where pre: "?m1 = pre @ [''specific'']" by blast
    with len have lp: "length pre = length ts" by simp
    from f(3) have c1: "?m1 = [] \<longrightarrow> isComplete ?st1" by simp
    from accepted_run[OF f(2) ats c1]
    have m: "getMissingInfo (scopingData (runTurns ts ?st1)) [] = [''specific'']"
      by (simp add: pre lp)
    have msg: "content (last (messages (runTurns ts ?st1)))
              = (if ts = []
                 then ''Perfect! I understand you need '' @ toLowerCase (extractTaskType ?u) @ ''. ''
                 else ''Got it! '')
                @ getNextQuestion ''specific'' (Some (extractTaskType ?u))"
    proof (cases ts rule: rev_cases)
      case Nil
      from a0 have s: "submitted t0 initState = ?u" by (rule submitted_turnText)
      with a0 have acc: "trim (submitted t0 initState) \<noteq> []" by simp
      have r: "reply t0 initState = firstMessage ?u emptyData" by (simp add: reply_first s)
      from m Nil have m1: "getMissingInfo (extractInitial ?u emptyData) [] = [''specific'']"
        by (simp add: f(1))
      then have "\<not> r_isComplete (reply t0 initState)"
        by (simp add: r firstMessage_complete[of _ _ "[]"])
      from step_last_message[OF acc this] firstMessage_message(1)[OF m1] Nil
      show ?thesis by (simp add: r lowerTaskType_def)
    next
      case (snoc ts' t)
      let ?st = "runTurns ts' ?st1"
      from ats snoc have at: "trim (turnText t) \<noteq> []" by simp
      then have acc: "trim (submitted t ?st) \<noteq> []" by (simp add: submitted_turnText)
      have l: "laterPhase ?st" using f(2) by (rule later_run(1))
      have e: "runTurns ts ?st1 = step t ?st" by (simp add: snoc runTurns_snoc)
      have r: "reply t ?st = laterMessage (submitted t ?st) (scopingData ?st)"
        using l by (rule reply_later)
      have d: "scopingData (step t ?st) = r_updatedData (laterMessage (submitted t ?st) (scopingData ?st))"
        by (simp add: step_scopingData[OF acc] r)
      from m have m2: "getMissingInfo (r_updatedData (laterMessage (submitted t ?st) (scopingData ?st))) []
          = [''specific'']"
        by (simp add: e d)
      then have "\<not> r_isComplete (reply t ?st)"
        by (simp add: r laterMessage_complete[of _ _ "[]"])
      from step_last_message[OF acc this] laterMessage_message(1)[OF m2]
      have "content (last (messages (runTurns ts ?st1)))
          = ''Got it! '' @ getNextQuestion ''specific'' (taskType (scopingData (step t ?st)))"
        by (simp add: e r d)
      moreover have "taskType (scopingData (step t ?st)) = Some (extractTaskType ?u)"
        using later_run(2)[OF f(2), of ts] by (simp add: e f(1))
      ultimately show ?thesis using snoc by simp
    qed
    from m msg show ?thesis by simp
  qed
  from sp mem nc ask
  show "specificOf (scopingData ?st1) = None
     \<and> ''specific'' \<in> set ?m1
     \<and> \<not> isComplete ?st1
     \<and> (Suc (length ts) = length ?m1 \<longrightarrow>
          getMissingInfo (scopingData (runTurns ts ?st1)) [] = [''specific'']
          \<and> content (last (messages (runTurns ts ?st1)))
              = (if ts = []
                 then ''Perfect! I understand you need '' @ toLowerCase (extractTaskType ?u) @ ''. ''
                 else ''Got it! '')
                @ getNextQuestion ''specific'' (Some (extractTaskType ?u)))"
    by blast
qed

theorem specific_slot_needs_its_own_answer_witness:
  "trim (turnText (Clicked okEnv ''Need deep cleaning'')) \<noteq> []
   \<and> extractTaskType (turnText (Clicked okEnv ''Need deep cleaning'')) = ''Cleaning''
   \<and> hasTaskSpecificInfo (turnText (Clicked okEnv ''Need deep cleaning'')) ''Cleaning''
   \<and> list_all (\<lambda>t. trim (turnText t) \<noteq> []) cleaningTurns
   \<and> ''specific'' \<in> set (getMissingInfo (scopingData (step (Clicked okEnv ''Need deep cleaning'') initState)) [])
   \<and> content (last (messages (runTurns cleaningTurns (step (Clicked okEnv ''Need deep cleaning'') initState))))
       = ''Got it! What type of cleaning do you need?''"
proof -
  let ?t0 = "Clicked okEnv ''Need deep cleaning''"
  have a: "trim (turnText ?t0) \<noteq> []" by code_simp
  have b: "extractTaskType (turnText ?t0) = ''Cleaning''" by code_simp
  have c: "hasTaskSpecificInfo (turnText ?t0) ''Cleaning''" by code_simp
  have d: "\<forall>t \<in> set cleaningTurns. trim (turnText t) \<noteq> []" by code_simp
  have e: "Suc (length cleaningTurns) = length (getMissingInfo (scopingData (step ?t0 initState)) [])"
    by code_simp
  have g: "getNextQuestion ''specific'' (Some ''Cleaning'') = ''What type of cleaning do you need?''"
    by code_simp
  have n: "cleaningTurns \<noteq> []" by (simp add: cleaningTurns_def)
  note T = specific_slot_needs_its_own_answer[of ?t0 cleaningTurns]
  from T a b d have 1: "''specific'' \<in> set (getMissingInfo (scopingData (step ?t0 initState)) [])"
    by simp
  from T a b d e have "content (last (messages (runTurns cleaningTurns (step ?t0 initState))))
       = (if cleaningTurns = []
          then ''Perfect! I understand you need '' @ toLowerCase (extractTaskType (turnText ?t0)) @ ''. ''
          else ''Got it! '')
         @ getNextQuestion ''specific'' (Some (extractTaskType (turnText ?t0)))"
    by simp
  with n b g have 2: "content (last (messages (runTurns cleaningTurns (step ?t0 initState))))
       = ''Got it! What type of cleaning do you need?''"
    by simp
  from d have d': "list_all (\<lambda>t. trim (turnText t) \<noteq> []) cleaningTurns"
    by (simp add: list_all_iff)
  from a b c d' 1 2 show ?thesis by blast
qed

text \<open>
  Claim C5, as stated, fails for returned data. When the collaborator returns an object
  without \<open>suggestedPrice\<close>, which violates the schema's \<open>required\<close> list, the controller
  still produces a parsed request, passes a record with no price to the database and
  shows no error message.
\<close>

theorem malformed_object_counterexample:
  "generated malformedEnv = Returns (okObject\<lparr>o_suggestedPrice := None\<rparr>)
   \<and> \<not> conformsToSchema (okObject\<lparr>o_suggestedPrice := None\<rparr>)
   \<and> parsedRequest cleaningAskedState = None
   \<and> parsedRequest malformedRun \<noteq> None
   \<and> map suggestedPrice (createCalls malformedRun) = [None]
   \<and> requestId malformedRun = Some ''req_1700000000000''
   \<and> content (last (messages malformedRun)) \<noteq> content errorMessage"
  by code_simp

text \<open>
  Claim C5, amended. If the call to the generative-object collaborator throws, the
  controller is in the complete state, shows its error message, has produced no parsed
  request and made no database call, has called the collaborator exactly once and is no
  longer processing. Any further accepted turn finalizes again with the same scoping data,
  one collaborator call per turn, and succeeds when the collaborator and the database
  return. Data the collaborator returns is not checked against the schema.
\<close>

theorem finalization_failure_is_recoverable:
  "trim (submitted t st) \<noteq> [] \<and> r_isComplete (reply t st) \<and> generated (turnEnv t) = Throws \<longrightarrow>
     isComplete (step t st)
     \<and> parsedRequest (step t st) = parsedRequest st
     \<and> requestId (step t st) = requestId st
     \<and> createCalls (step t st) = createCalls st
     \<and> generateCalls (step t st) = generateCalls st @ [r_updatedData (reply t st)]
     \<and> content (last (messages (step t st)))
         = content errorMessage
     \<and> \<not> isProcessing (step t st)
     \<and> scopingData (step t st) = r_updatedData (reply t st)
     \<and> (anchored st \<and> trim (submitted t2 (step t st)) \<noteq> [] \<longrightarrow>
          isComplete (step t2 (step t st))
          \<and> scopingData (step t2 (step t st)) = scopingData (step t st)
          \<and> generateCalls (step t2 (step t st)) = generateCalls (step t st) @ [scopingData (step t st)]
          \<and> (\<forall>object newId.
                generated (turnEnv t2) = Returns object \<and> created (turnEnv t2) = Returns newId \<longrightarrow>
                  parsedRequest (step t2 (step t st))
                    = Some \<lparr>pr_taskType = or_else (taskType (scopingData (step t st))) (o_taskType object),
                            pr_skills = o_skills object,
                            pr_location = or_else (location (scopingData (step t st))) (o_location object),
                            pr_duration = o_duration object,
                            pr_suggestedPrice = o_suggestedPrice object,
                            pr_description = o_description object\<rparr>
                  \<and> requestId (step t2 (step t st)) = Some newId
                  \<and> length (createCalls (step t2 (step t st))) = Suc (length (createCalls st))))"
proof
  assume h: "trim (submitted t st) \<noteq> [] \<and> r_isComplete (reply t st) \<and> generated (turnEnv t) = Throws"
  then have acc: "trim (submitted t st) \<noteq> []" and c: "r_isComplete (reply t st)"
    and th: "generated (turnEnv t) = Throws" by simp_all
  let ?d = "r_updatedData (reply t st)"
  let ?st' = "step t st"
  have e: "?st' = finalize (turnEnv t) (submitted t st) ?d (showReply (submitted t st) (reply t st) st)"
    using acc c by (simp add: step_accepted)
  note ft = finalize_throws[OF th, of "submitted t st" ?d "showReply (submitted t st) (reply t st) st"]
  have 1: "isComplete ?st'" by (simp add: e)
  have 2: "parsedRequest ?st' = parsedRequest st" by (simp add: e ft(1))
  have 3: "requestId ?st' = requestId st" by (simp add: e ft(2))
  have 4: "createCalls ?st' = createCalls st" by (simp add: e ft(3))
  have 5: "generateCalls ?st' = generateCalls st @ [?d]" by (simp add: e)
  have 6: "content (last (messages ?st')) = content errorMessage"
    by (simp add: e ft(4))
  have 7: "\<not> isProcessing ?st'" by (simp add: e ft(5))
  have 8: "scopingData ?st' = ?d" by (simp add: e)
  have m: "getMissingInfo (scopingData ?st') [] = []"
    using c by (simp add: 8 reply_def processUserInput_complete[of _ _ _ "[]"])
  have 9: "isComplete (step t2 ?st')
          \<and> scopingData (step t2 ?st') = scopingData ?st'
          \<and> generateCalls (step t2 ?st') = generateCalls ?st' @ [scopingData ?st']
          \<and> (\<forall>object newId.
                generated (turnEnv t2) = Returns object \<and> created (turnEnv t2) = Returns newId \<longrightarrow>
                  parsedRequest (step t2 ?st')
                    = Some \<lparr>pr_taskType = or_else (taskType (scopingData ?st')) (o_taskType object),
                            pr_skills = o_skills object,
                            pr_location = or_else (location (scopingData ?st')) (o_location object),
                            pr_duration = o_duration object,
                            pr_suggestedPrice = o_suggestedPrice object,
                            pr_description = o_description object\<rparr>
                  \<and> requestId (step t2 ?st') = Some newId
                  \<and> length (createCalls (step t2 ?st')) = Suc (length (createCalls st)))"
    if h2: "anchored st \<and> trim (submitted t2 ?st') \<noteq> []"
  proof -
    from h2 have an: "anchored st" and acc2: "trim (submitted t2 ?st') \<noteq> []" by simp_all
    have l: "laterPhase ?st'" using acc an by (rule step_laterPhase)
    note k = complete_data_stays[OF l m, of t2]
    let ?S = "showReply (submitted t2 ?st') (reply t2 ?st') ?st'"
    have e2: "step t2 ?st' = finalize (turnEnv t2) (submitted t2 ?st') (scopingData ?st') ?S"
      using acc2 k by (simp add: step_accepted)
    have a: "isComplete (step t2 ?st')" by (simp add: e2)
    have b: "scopingData (step t2 ?st') = scopingData ?st'" by (simp add: e2 k(1))
    have g: "generateCalls (step t2 ?st') = generateCalls ?st' @ [scopingData ?st']" by (simp add: e2)
    have r: "parsedRequest (step t2 ?st')
                    = Some \<lparr>pr_taskType = or_else (taskType (scopingData ?st')) (o_taskType object),
                            pr_skills = o_skills object,
                            pr_location = or_else (location (scopingData ?st')) (o_location object),
                            pr_duration = o_duration object,
                            pr_suggestedPrice = o_suggestedPrice object,
                            pr_description = o_description object\<rparr>
                  \<and> requestId (step t2 ?st') = Some newId
                  \<and> length (createCalls (step t2 ?st')) = Suc (length (createCalls st))"
      if "generated (turnEnv t2) = Returns object \<and> created (turnEnv t2) = Returns newId"
      for object newId
    proof -
      from that have g1: "generated (turnEnv t2) = Returns object" and g2: "created (turnEnv t2) = Returns newId"
        by simp_all
      note fr = finalize_returns[OF g1 g2, of "submitted t2 ?st'" "scopingData ?st'" ?S]
      from fr show ?thesis by (simp add: e2 4)
    qed
    from a b g r show ?thesis by blast
  qed
  from 1 2 3 4 5 6 7 8 9
  show "isComplete ?st'
     \<and> parsedRequest ?st' = parsedRequest st
     \<and> requestId ?st' = requestId st
     \<and> createCalls ?st' = createCalls st
     \<and> generateCalls ?st' = generateCalls st @ [?d]
     \<and> content (last (messages ?st')) = content errorMessage
     \<and> \<not> isProcessing ?st'
     \<and> scopingData ?st' = ?d
     \<and> (anchored st \<and> trim (submitted t2 ?st') \<noteq> [] \<longrightarrow>
          isComplete (step t2 ?st')
          \<and> scopingData (step t2 ?st') = scopingData ?st'
          \<and> generateCalls (step t2 ?st') = generateCalls ?st' @ [scopingData ?st']
          \<and> (\<forall>object newId.
                generated (turnEnv t2) = Returns object \<and> created (turnEnv t2) = Returns newId \<longrightarrow>
                  parsedRequest (step t2 ?st')
                    = Some \<lparr>pr_taskType = or_else (taskType (scopingData ?st')) (o_taskType object),
                            pr_skills = o_skills object,
                            pr_location = or_else (location (scopingData ?st')) (o_location object),
                            pr_duration = o_duration object,
                            pr_suggestedPrice = o_suggestedPrice object,
                            pr_description = o_description object\<rparr>
                  \<and> requestId (step t2 ?st') = Some newId
                  \<and> length (createCalls (step t2 ?st')) = Suc (length (createCalls st))))"
    by blast
qed

theorem finalization_failure_is_recoverable_witness:
  "trim (submitted (Typed failingEnv ''Deep cleaning'') cleaningAskedState) \<noteq> []
   \<and> r_isComplete (reply (Typed failingEnv ''Deep cleaning'') cleaningAskedState)
   \<and> generated (turnEnv (Typed failingEnv ''Deep cleaning'')) = Throws
   \<and> anchored cleaningAskedState
   \<and> isComplete failedRun
   \<and> parsedRequest failedRun = None
   \<and> createCalls failedRun = []
   \<and> length (generateCalls failedRun) = 1
   \<and> requestId (step (Clicked okEnv ''Today'') failedRun) = Some ''req_1700000000000''
   \<and> length (createCalls (step (Clicked okEnv ''Today'') failedRun)) = 1"
proof -
  let ?t = "Typed failingEnv ''Deep cleaning''"
  let ?t2 = "Clicked okEnv ''Today''"
  have a: "trim (submitted ?t cleaningAskedState) \<noteq> []" by code_simp
  have b: "r_isComplete (reply ?t cleaningAskedState)" by code_simp
  have c: "generated (turnEnv ?t) = Throws" by code_simp
  have d: "anchored cleaningAskedState" by code_simp
  have e: "trim (submitted ?t2 (step ?t cleaningAskedState)) \<noteq> []" by code_simp
  have f: "parsedRequest cleaningAskedState = None" by code_simp
  have g: "createCalls cleaningAskedState = []" "generateCalls cleaningAskedState = []" by code_simp+
  have k: "generated (turnEnv ?t2) = Returns okObject" "created (turnEnv ?t2) = Returns ''req_1700000000000''"
    by code_simp+
  note T = finalization_failure_is_recoverable[of ?t cleaningAskedState ?t2]
  from T a b c f g have 1: "isComplete failedRun" "parsedRequest failedRun = None"
      "createCalls failedRun = []" "length (generateCalls failedRun) = 1"
    by (simp_all add: failedRun_def)
  from T a b c d e k g have 2: "requestId (step ?t2 failedRun) = Some ''req_1700000000000''"
      "length (createCalls (step ?t2 failedRun)) = 1"
    by (simp_all add: failedRun_def)
  from a b c d 1 2 show ?thesis by blast
qed

text \<open>
  Claim C6. \<open>extractTimeline\<close> is the first matching rule of the table today/asap,
  tomorrow, this week, next week, weekend on the lower-cased text, and it is \<open>None\<close>
  exactly when no keyword occurs: there is no default value. After a first utterance
  without a timeline keyword the timeline slot is still unset, \<open>timeline\<close> is in the
  missing-field list and the first reply does not complete the dialogue.
\<close>

theorem extractTimeline_first_rule_or_none:
  "extractTimeline text = firstRule timelineRules (toLowerCase text)
   \<and> (extractTimeline text = None \<longleftrightarrow> (\<forall>r \<in> set timelineRules. \<not> ruleMatches (toLowerCase text) r))
   \<and> (\<forall>i < length timelineRules.
         ruleMatches (toLowerCase text) (timelineRules ! i)
         \<and> (\<forall>j<i. \<not> ruleMatches (toLowerCase text) (timelineRules ! j))
        \<longrightarrow> extractTimeline text = Some (snd (timelineRules ! i)))
   \<and> (extractTimeline text = None \<and> \<not> truthy (timeline d)
        \<longrightarrow> \<not> truthy (timeline (extractInitial text d))
            \<and> ''timeline'' \<in> set (getMissingInfo (extractInitial text d) t)
            \<and> \<not> r_isComplete (firstMessage text d))"
proof (intro conjI allI impI)
  show eq: "extractTimeline text = firstRule timelineRules (toLowerCase text)"
    by (rule extractTimeline_table)
  show "extractTimeline text = None \<longleftrightarrow> (\<forall>r \<in> set timelineRules. \<not> ruleMatches (toLowerCase text) r)"
    unfolding eq firstRule_def by (simp only: option.map_disc_iff find_None_iff) blast
  {
    fix i
    assume "i < length timelineRules"
      and "ruleMatches (toLowerCase text) (timelineRules ! i)
         \<and> (\<forall>j<i. \<not> ruleMatches (toLowerCase text) (timelineRules ! j))"
    then show "extractTimeline text = Some (snd (timelineRules ! i))"
      by (simp add: eq firstRule_least)
  }
  {
    assume h: "extractTimeline text = None \<and> \<not> truthy (timeline d)"
    then show nt: "\<not> truthy (timeline (extractInitial text d))"
      by (simp add: extractInitial_def Let_def)
    then show "''timeline'' \<in> set (getMissingInfo (extractInitial text d) t)"
      by (simp add: getMissingInfo_def Let_def)
    then have "getMissingInfo (extractInitial text d) t \<noteq> []" by auto
    then show "\<not> r_isComplete (firstMessage text d)"
      by (simp add: firstMessage_complete[of "text" d t])
  }
qed

theorem extractTimeline_first_rule_or_none_witness:
  "extractTimeline ''Need apartment cleaning'' = None
   \<and> ''timeline'' \<in> set (getMissingInfo (extractInitial ''Need apartment cleaning'' emptyData) [])
   \<and> extractTimeline ''sometime this WEEKEND'' = Some ''This week''"
proof -
  have a: "\<forall>r \<in> set timelineRules. \<not> ruleMatches (toLowerCase ''Need apartment cleaning'') r"
    by (simp add: timelineRules_def ruleMatches_def toLowerCase_def lower_char_def)
  have b: "\<not> truthy (timeline emptyData)" by (simp add: emptyData_def)
  have c: "firstRule timelineRules (toLowerCase ''sometime this WEEKEND'') = Some ''This week''"
    by (simp add: firstRule_def timelineRules_def ruleMatches_def toLowerCase_def lower_char_def)
  note T1 = extractTimeline_first_rule_or_none[of "''Need apartment cleaning''" emptyData "[]"]
  note T2 = extractTimeline_first_rule_or_none[of "''sometime this WEEKEND''" emptyData "[]"]
  from T1 a have n: "extractTimeline ''Need apartment cleaning'' = None" by blast
  with T1 b have "''timeline'' \<in> set (getMissingInfo (extractInitial ''Need apartment cleaning'' emptyData) [])"
    by blast
  moreover from T2 c have "extractTimeline ''sometime this WEEKEND'' = Some ''This week''" by simp
  ultimately show ?thesis using n by simp
qed

text \<open>
  Claim C7, as stated, fails on a range whose second integer has no dollar sign. On
  \<open>$50-100\<close>, one of the component's own budget suggestions, the pattern as the claim
  words it matches \<open>$50\<close>, and \<open>extractBudget\<close> returns \<open>$50-100\<close>.
\<close>

theorem budget_counterexample:
  "extractBudget ''$50-100'' = Some ''$50-100''
   \<and> regexSearch specBudgetPattern ''$50-100'' = Some ''$50''"
  by code_simp

text \<open>
  Claim C7, amended. \<open>extractBudget\<close> returns \<open>None\<close> exactly when the text has no dollar
  sign followed by a digit. Otherwise it returns a piece of the text, verbatim, that is a
  dollar sign and an integer, optionally followed by a hyphen and an integer with or
  without a dollar sign of its own; no dollar sign followed by a digit occurs before it;
  and it is the longest text of that shape starting there.
\<close>

theorem extractBudget_leftmost_longest:
  "(extractBudget text = None \<longleftrightarrow> \<not> (\<exists>ps d ss. text = ps @ CHR ''$'' # d # ss \<and> inCls Digit d))
   \<and> (\<forall>m. extractBudget text = Some m \<longrightarrow>
         budgetText m
         \<and> (\<exists>ps ss. text = ps @ m @ ss
               \<and> \<not> (\<exists>qs d rs. ps = qs @ CHR ''$'' # d # rs \<and> inCls Digit d)
               \<and> (\<forall>m'. budgetText m' \<and> prefix m' (m @ ss) \<longrightarrow> length m' \<le> length m)))"
proof (intro conjI allI impI)
  show "extractBudget text = None \<longleftrightarrow> \<not> (\<exists>ps d ss. text = ps @ CHR ''$'' # d # ss \<and> inCls Digit d)"
    by (rule no_budget_iff)
next
  fix m
  assume "extractBudget text = Some m"
  from extractBudget_Some[OF this] obtain ps ss where
    p: "text = ps @ m @ ss" "budgetMatchAt (m @ ss) = Some m" "extractBudget ps = None"
    by blast
  from p(2) show "budgetText m" by (rule budgetMatchAt_shape)
  have "\<forall>m'. budgetText m' \<and> prefix m' (m @ ss) \<longrightarrow> length m' \<le> length m"
    using budgetMatchAt_longest[OF p(2)] by blast
  moreover from p(3) no_budget_iff[of ps]
  have "\<not> (\<exists>qs d rs. ps = qs @ CHR ''$'' # d # rs \<and> inCls Digit d)"
    by blast
  ultimately show "\<exists>ps ss. text = ps @ m @ ss
               \<and> \<not> (\<exists>qs d rs. ps = qs @ CHR ''$'' # d # rs \<and> inCls Digit d)
               \<and> (\<forall>m'. budgetText m' \<and> prefix m' (m @ ss) \<longrightarrow> length m' \<le> length m)"
    using p(1) by blast
qed

theorem extractBudget_leftmost_longest_witness:
  "extractBudget ''Around $50-100 or $75'' = Some ''$50-100''
   \<and> budgetText ''$50-100''
   \<and> extractBudget ''Flexible budget'' = None
   \<and> \<not> (\<exists>ps d ss. ''Flexible budget'' = ps @ CHR ''$'' # d # ss \<and> inCls Digit d)"
proof -
  have a: "extractBudget ''Around $50-100 or $75'' = Some ''$50-100''" by code_simp
  have b: "extractBudget ''Flexible budget'' = None" by code_simp
  from a extractBudget_leftmost_longest[of "''Around $50-100 or $75''"]
  have 1: "budgetText ''$50-100''" by blast
  from b extractBudget_leftmost_longest[of "''Flexible budget''"]
  have 2: "\<not> (\<exists>ps d ss. ''Flexible budget'' = ps @ CHR ''$'' # d # ss \<and> inCls Digit d)" by blast
  from a b 1 2 show ?thesis by blast
qed

text \<open>
  Claim C8. \<open>getMissingInfo\<close> returns the unmet fields in the order location, budget,
  timeline, specific, the last one only for a task type with a follow-up question. On a
  later turn the controller stores the answer into the head of the list and leaves every
  other slot alone; the reply asks the question of the head of the list for the updated
  data, with its suggestions; and the state keeps exactly that updated data, so the next
  answer goes to the field just asked.
\<close>

theorem missing_fields_priority_and_head:
  "getMissingInfo d t = filter (unmet d) requiredOrder
   \<and> (1 < length msgs \<and> getMissingInfo d t = f # rest \<longrightarrow>
        slot f (r_updatedData (processUserInput msgs u d)) = answerFor f u
        \<and> (\<forall>g. g \<noteq> f \<longrightarrow> slot g (r_updatedData (processUserInput msgs u d)) = slot g d))
   \<and> (getMissingInfo (r_updatedData (processUserInput msgs u d)) t = g # rest' \<longrightarrow>
        r_message (processUserInput msgs u d)
          = (if length msgs \<le> 1
             then ''Perfect! I understand you need ''
                  @ lowerTaskType (taskType (r_updatedData (processUserInput msgs u d))) @ ''. ''
             else ''Got it! '')
            @ getNextQuestion g (taskType (r_updatedData (processUserInput msgs u d)))
        \<and> getNextQuestion g (taskType (r_updatedData (processUserInput msgs u d))) \<noteq> []
        \<and> r_suggestions (processUserInput msgs u d)
            = getQuestionSuggestions g (taskType (r_updatedData (processUserInput msgs u d)))
        \<and> \<not> r_isComplete (processUserInput msgs u d))
   \<and> (trim (submitted tn st) \<noteq> [] \<longrightarrow>
        scopingData (step tn st)
          = r_updatedData (processUserInput (messages st) (submitted tn st) (scopingData st)))"
proof (intro conjI impI)
  show "getMissingInfo d t = filter (unmet d) requiredOrder" by (rule getMissingInfo_filter)
next
  assume h: "1 < length msgs \<and> getMissingInfo d t = f # rest"
  then have m: "getMissingInfo d t = f # rest" by simp
  from h have p: "r_updatedData (processUserInput msgs u d) = storeAnswer (Some f) u d"
    by (simp add: processUserInput_def laterMessage_data[of u d t] headOf_def)
  show "slot f (r_updatedData (processUserInput msgs u d)) = answerFor f u"
    unfolding p using missing_head_unmet(1)[OF m] by (rule storeAnswer_head)
  show "\<forall>g. g \<noteq> f \<longrightarrow> slot g (r_updatedData (processUserInput msgs u d)) = slot g d"
    unfolding p by (simp add: storeAnswer_others)
next
  let ?r = "processUserInput msgs u d"
  assume h: "getMissingInfo (r_updatedData ?r) t = g # rest'"
  show "r_message ?r
          = (if length msgs \<le> 1
             then ''Perfect! I understand you need '' @ lowerTaskType (taskType (r_updatedData ?r)) @ ''. ''
             else ''Got it! '')
            @ getNextQuestion g (taskType (r_updatedData ?r))"
  proof (cases "length msgs \<le> 1")
    case True
    then have e: "?r = firstMessage u d" by (simp add: processUserInput_def)
    from h have "getMissingInfo (extractInitial u d) t = g # rest'" by (simp add: e)
    from firstMessage_message(1)[OF this] show ?thesis using True by (simp add: e)
  next
    case False
    then have e: "?r = laterMessage u d" by (simp add: processUserInput_def)
    from laterMessage_message(1)[OF h[unfolded e]] show ?thesis using False by (simp add: e)
  qed
  show "getNextQuestion g (taskType (r_updatedData ?r)) \<noteq> []"
    using h by (rule question_nonempty)
  show "r_suggestions ?r = getQuestionSuggestions g (taskType (r_updatedData ?r))"
  proof (cases "length msgs \<le> 1")
    case True
    then have e: "?r = firstMessage u d" by (simp add: processUserInput_def)
    from h have "getMissingInfo (extractInitial u d) t = g # rest'" by (simp add: e)
    from firstMessage_message(2)[OF this] show ?thesis by (simp add: e)
  next
    case False
    then have e: "?r = laterMessage u d" by (simp add: processUserInput_def)
    from laterMessage_message(2)[OF h[unfolded e]] show ?thesis by (simp add: e)
  qed
  show "\<not> r_isComplete ?r"
    using h by (simp add: processUserInput_complete[of msgs u d t])
next
  assume "trim (submitted tn st) \<noteq> []"
  then show "scopingData (step tn st)
          = r_updatedData (processUserInput (messages st) (submitted tn st) (scopingData st))"
    by (simp add: step_scopingData reply_def)
qed

theorem missing_fields_priority_and_head_witness:
  "1 < length [welcomeMessage, welcomeMessage]
   \<and> getMissingInfo emptyData [] = [''location'', ''budget'', ''timeline'']
   \<and> slot ''location'' (r_updatedData (processUserInput [welcomeMessage, welcomeMessage] ''Austin, TX'' emptyData))
       = Some ''Austin, TX''
   \<and> r_message (processUserInput [welcomeMessage, welcomeMessage] ''Austin, TX'' emptyData)
       = ''Got it! What's your budget for this?''"
proof -
  note T = missing_fields_priority_and_head[of emptyData "[]" "[welcomeMessage, welcomeMessage]"
      "''location''" "[''budget'', ''timeline'']" "''Austin, TX''" "''budget''" "[''timeline'']"
      "Typed okEnv ''Austin, TX''" initState]
  have a: "getMissingInfo emptyData [] = [''location'', ''budget'', ''timeline'']" by code_simp
  have b: "getMissingInfo (r_updatedData (processUserInput [welcomeMessage, welcomeMessage] ''Austin, TX'' emptyData)) []
       = [''budget'', ''timeline'']" by code_simp
  have c: "answerFor ''location'' ''Austin, TX'' = Some ''Austin, TX''" by code_simp
  have d: "getNextQuestion ''budget''
       (taskType (r_updatedData (processUserInput [welcomeMessage, welcomeMessage] ''Austin, TX'' emptyData)))
       = ''What's your budget for this?''" by code_simp
  from T a c have 1: "slot ''location''
       (r_updatedData (processUserInput [welcomeMessage, welcomeMessage] ''Austin, TX'' emptyData))
       = Some ''Austin, TX''" by simp
  from T b d have 2: "r_message (processUserInput [welcomeMessage, welcomeMessage] ''Austin, TX'' emptyData)
       = ''Got it! What's your budget for this?''" by simp
  from a 1 2 show ?thesis by simp
qed

text \<open>
  Claim C9. After the first turn at most four fields are missing. Each accepted later turn
  gives the head missing field a truthy value and removes exactly that field from the list,
  so after \<open>n\<close> accepted turns the list has lost its first \<open>n\<close> entries, and the dialogue
  is complete as soon as the number of accepted turns reaches the number of missing fields,
  at the latest after four.
\<close>

theorem dialogue_completes_within_four_turns:
  "trim (turnText t0) \<noteq> [] \<and> (\<forall>t \<in> set ts. trim (turnText t) \<noteq> []) \<longrightarrow>
     length (getMissingInfo (scopingData (step t0 initState)) []) \<le> 4
     \<and> getMissingInfo (scopingData (runTurns ts (step t0 initState))) []
         = drop (length ts) (getMissingInfo (scopingData (step t0 initState)) [])
     \<and> (length (getMissingInfo (scopingData (step t0 initState)) []) \<le> length ts
          \<longrightarrow> isComplete (runTurns ts (step t0 initState)))
     \<and> (4 \<le> length ts \<longrightarrow> isComplete (runTurns ts (step t0 initState)))
     \<and> (\<forall>f rest. getMissingInfo (scopingData (runTurns ts (step t0 initState))) [] = f # rest
            \<and> trim (turnText tn) \<noteq> []
          \<longrightarrow> truthy (slot f (scopingData (step tn (runTurns ts (step t0 initState)))))
              \<and> getMissingInfo (scopingData (step tn (runTurns ts (step t0 initState)))) [] = rest)"
proof
  assume a: "trim (turnText t0) \<noteq> [] \<and> (\<forall>t \<in> set ts. trim (turnText t) \<noteq> [])"
  let ?st1 = "step t0 initState"
  let ?st = "runTurns ts ?st1"
  let ?m1 = "getMissingInfo (scopingData ?st1) []"
  from a have a0: "trim (turnText t0) \<noteq> []" and ats: "\<forall>t \<in> set ts. trim (turnText t) \<noteq> []"
    by simp_all
  note f = first_step[OF a0]
  from f(3) have c1: "?m1 = [] \<longrightarrow> isComplete ?st1" by simp
  from accepted_run[OF f(2) ats c1]
  have r: "getMissingInfo (scopingData ?st) [] = drop (length ts) ?m1"
      "getMissingInfo (scopingData ?st) [] = [] \<longrightarrow> isComplete ?st"
      "laterPhase ?st"
    by simp_all
  have le: "length ?m1 \<le> 4" by (rule missing_at_most_four)
  have fin: "isComplete ?st" if "length ?m1 \<le> length ts"
    using that r(1,2) by simp
  have head: "truthy (slot f (scopingData (step tn ?st))) \<and> getMissingInfo (scopingData (step tn ?st)) [] = rest"
    if h: "getMissingInfo (scopingData ?st) [] = f # rest \<and> trim (turnText tn) \<noteq> []" for f rest
  proof -
    from h have acc: "trim (submitted tn ?st) \<noteq> []" by (simp add: submitted_turnText)
    then have u: "submitted tn ?st \<noteq> []" by (rule trim_nonempty)
    from h have m: "getMissingInfo (scopingData ?st) [] = f # rest" by simp
    have d: "scopingData (step tn ?st) = storeAnswer (Some f) (submitted tn ?st) (scopingData ?st)"
      using later_step_data[OF r(3) acc] m by (simp add: headOf_def)
    have "truthy (slot f (scopingData (step tn ?st)))"
      unfolding d using missing_head_unmet(1)[OF m] u by (simp add: storeAnswer_head answerFor_truthy)
    moreover have "getMissingInfo (scopingData (step tn ?st)) [] = rest"
      using later_step_pops(1)[OF r(3) acc] m by simp
    ultimately show ?thesis by simp
  qed
  show "length ?m1 \<le> 4
     \<and> getMissingInfo (scopingData ?st) [] = drop (length ts) ?m1
     \<and> (length ?m1 \<le> length ts \<longrightarrow> isComplete ?st)
     \<and> (4 \<le> length ts \<longrightarrow> isComplete ?st)
     \<and> (\<forall>f rest. getMissingInfo (scopingData ?st) [] = f # rest \<and> trim (turnText tn) \<noteq> []
          \<longrightarrow> truthy (slot f (scopingData (step tn ?st)))
              \<and> getMissingInfo (scopingData (step tn ?st)) [] = rest)"
  proof (intro conjI)
    show "length ?m1 \<le> 4" by (rule le)
    show "getMissingInfo (scopingData ?st) [] = drop (length ts) ?m1" by (rule r(1))
    show "length ?m1 \<le> length ts \<longrightarrow> isComplete ?st" using fin by blast
    show "4 \<le> length ts \<longrightarrow> isComplete ?st" using fin le by auto
    show "\<forall>f rest. getMissingInfo (scopingData ?st) [] = f # rest \<and> trim (turnText tn) \<noteq> []
          \<longrightarrow> truthy (slot f (scopingData (step tn ?st)))
              \<and> getMissingInfo (scopingData (step tn ?st)) [] = rest"
      using head by blast
  qed
qed

theorem dialogue_completes_within_four_turns_witness:
  "trim (turnText (Clicked okEnv ''Need deep cleaning'')) \<noteq> []
   \<and> list_all (\<lambda>t. trim (turnText t) \<noteq> []) (cleaningTurns @ [Typed okEnv ''Deep cleaning''])
   \<and> getMissingInfo (scopingData (step (Clicked okEnv ''Need deep cleaning'') initState)) []
       = [''location'', ''budget'', ''timeline'', ''specific'']
   \<and> isComplete (runTurns (cleaningTurns @ [Typed okEnv ''Deep cleaning''])
                   (step (Clicked okEnv ''Need deep cleaning'') initState))"
proof -
  have a: "trim (turnText (Clicked okEnv ''Need deep cleaning'')) \<noteq> []" by code_simp
  have b: "\<forall>t \<in> set (cleaningTurns @ [Typed okEnv ''Deep cleaning'']). trim (turnText t) \<noteq> []"
    by code_simp
  have c: "4 \<le> length (cleaningTurns @ [Typed okEnv ''Deep cleaning''])"
    by (simp add: cleaningTurns_def)
  have d: "getMissingInfo (scopingData (step (Clicked okEnv ''Need deep cleaning'') initState)) []
       = [''location'', ''budget'', ''timeline'', ''specific'']"
    by code_simp
  from a b c dialogue_completes_within_four_turns[of "Clicked okEnv ''Need deep cleaning''"
      "cleaningTurns @ [Typed okEnv ''Deep cleaning'']" "Typed okEnv ''x''"]
  have "isComplete (runTurns (cleaningTurns @ [Typed okEnv ''Deep cleaning''])
                   (step (Clicked okEnv ''Need deep cleaning'') initState))"
    by blast
  moreover from b
  have "list_all (\<lambda>t. trim (turnText t) \<noteq> []) (cleaningTurns @ [Typed okEnv ''Deep cleaning''])"
    by (simp add: list_all_iff)
  ultimately show ?thesis using a d by blast
qed

text \<open>
  Claim C10. The list that \<open>getMissingInfo\<close> returns depends on the scoping data alone:
  two calls on the same data with any two texts return the same list. In particular the
  location is reported missing exactly when the location slot is falsy, whatever words
  (\<open>home\<close>, \<open>apartment\<close>) the text holds.
\<close>

theorem missing_fields_ignore_text:
  "getMissingInfo d t1 = getMissingInfo d t2
   \<and> (''location'' \<in> set (getMissingInfo d t1) \<longleftrightarrow> \<not> truthy (location d))"
  by (auto simp: getMissingInfo_def Let_def)

theorem missing_fields_ignore_text_witness:
  "getMissingInfo emptyData ''I am at home in my apartment'' = getMissingInfo emptyData []
   \<and> ''location'' \<in> set (getMissingInfo emptyData ''I am at home in my apartment'')"
proof -
  have "\<not> truthy (location emptyData)"
    by (simp add: emptyData_def)
  with missing_fields_ignore_text[of emptyData "''I am at home in my apartment''" "[]"]
  show ?thesis by blast
qed

end
